theory Spec2Isabelle
  imports Main "HOL-Library.Monad_Syntax" "HOL-Library.AList"
begin

section \<open>Go types, values and the heap\<close>

text \<open>
  The library works on Go values through the \<open>reflect\<close> package. The fragment of Go
  modelled here has booleans, integers, strings, pointers, slices, fixed arrays, maps and
  named struct types whose fields are all exported and none embedded. There are no function
  and no interface types. A type of the fragment stands for one type of the program, which
  may be a defined type with methods: the methods of the types are given by a table (see
  \<open>methods\<close> below).
\<close>

datatype ty = TBool | TInt | TString | TPtr ty | TSlice ty | TArray nat ty | TMap ty ty
  | TStruct string "string list" "ty list"

datatype val = VBool bool | VInt int | VStr string
  | VPtr "nat option" | VMap "nat option" | VSlice "(nat \<times> nat) option"
  | VArray "val list" | VStruct "val list"

datatype cell = CVal val | CMap "(val \<times> val) list"

type_synonym heap = "cell list"

datatype rvalue = Invalid | Val ty val | Place ty nat "nat list"

fun zero :: "ty \<Rightarrow> val" where
  "zero TBool = VBool False"
| "zero TInt = VInt 0"
| "zero TString = VStr []"
| "zero (TPtr t) = VPtr None"
| "zero (TSlice t) = VSlice None"
| "zero (TArray n t) = VArray (replicate n (zero t))"
| "zero (TMap k t) = VMap None"
| "zero (TStruct n fs ts) = VStruct (map zero ts)"

fun sel_get :: "val \<Rightarrow> nat list \<Rightarrow> val option" where
  "sel_get v [] = Some v"
| "sel_get (VStruct vs) (i # is) = (if i < length vs then sel_get (vs ! i) is else None)"
| "sel_get (VArray vs) (i # is) = (if i < length vs then sel_get (vs ! i) is else None)"
| "sel_get _ (i # is) = None"

fun sel_put :: "val \<Rightarrow> nat list \<Rightarrow> val \<Rightarrow> val option" where
  "sel_put v [] x = Some x"
| "sel_put (VStruct vs) (i # is) x =
     (if i < length vs
      then (case sel_put (vs ! i) is x of None \<Rightarrow> None | Some w \<Rightarrow> Some (VStruct (vs[i := w])))
      else None)"
| "sel_put (VArray vs) (i # is) x =
     (if i < length vs
      then (case sel_put (vs ! i) is x of None \<Rightarrow> None | Some w \<Rightarrow> Some (VArray (vs[i := w])))
      else None)"
| "sel_put _ (i # is) x = None"

text \<open>
  The heap is a list of cells addressed by position; a new cell is appended. A cell holds
  either a variable (a value) or a map object. A \<open>reflect.Value\<close> is invalid, a detached
  copy of a value (not settable), or an addressable place inside a variable (settable).
  Every operation that can panic returns \<open>None\<close> where Go panics. \<open>SetMapIndex\<close> with the
  invalid value deletes the key, which on a nil map does nothing; with a value it panics on
  a nil map.
\<close>

definition load :: "heap \<Rightarrow> nat \<Rightarrow> nat list \<Rightarrow> val option" where
  "load h a sel =
     (if a < length h then (case h ! a of CVal v \<Rightarrow> sel_get v sel | CMap m \<Rightarrow> None) else None)"

definition store :: "heap \<Rightarrow> nat \<Rightarrow> nat list \<Rightarrow> val \<Rightarrow> heap option" where
  "store h a sel x =
     (if a < length h
      then (case h ! a of
              CVal v \<Rightarrow> (case sel_put v sel x of None \<Rightarrow> None | Some w \<Rightarrow> Some (h[a := CVal w]))
            | CMap m \<Rightarrow> None)
      else None)"

fun IsValid :: "rvalue \<Rightarrow> bool" where
  "IsValid Invalid = False"
| "IsValid _ = True"

fun CanSet :: "rvalue \<Rightarrow> bool" where
  "CanSet (Place t a sel) = True"
| "CanSet _ = False"

fun rtype :: "rvalue \<Rightarrow> ty option" where
  "rtype Invalid = None"
| "rtype (Val t v) = Some t"
| "rtype (Place t a sel) = Some t"

fun valof :: "heap \<Rightarrow> rvalue \<Rightarrow> val option" where
  "valof h Invalid = None"
| "valof h (Val t v) = Some v"
| "valof h (Place t a sel) = load h a sel"

fun deref :: "ty \<Rightarrow> nat option \<Rightarrow> rvalue" where
  "deref t None = Invalid"
| "deref t (Some a) = Place t a []"

definition reflect_Elem :: "heap \<Rightarrow> rvalue \<Rightarrow> rvalue option" where
  "reflect_Elem h rv =
     (case (rtype rv, valof h rv) of
        (Some (TPtr t), Some (VPtr p)) \<Rightarrow> Some (deref t p)
      | _ \<Rightarrow> None)"

definition reflect_IsNil :: "heap \<Rightarrow> rvalue \<Rightarrow> bool option" where
  "reflect_IsNil h rv =
     (case valof h rv of
        Some (VPtr p) \<Rightarrow> Some (p = None)
      | Some (VMap m) \<Rightarrow> Some (m = None)
      | Some (VSlice s) \<Rightarrow> Some (s = None)
      | _ \<Rightarrow> None)"

definition reflect_Set :: "heap \<Rightarrow> rvalue \<Rightarrow> rvalue \<Rightarrow> heap option" where
  "reflect_Set h target x =
     (case target of
        Place t a sel \<Rightarrow>
          (if rtype x = Some t
           then (case valof h x of None \<Rightarrow> None | Some v \<Rightarrow> store h a sel v)
           else None)
      | _ \<Rightarrow> None)"

definition reflect_New :: "heap \<Rightarrow> ty \<Rightarrow> rvalue \<times> heap" where
  "reflect_New h t = (Val (TPtr t) (VPtr (Some (length h))), h @ [CVal (zero t)])"

definition reflect_MakeSlice :: "heap \<Rightarrow> ty \<Rightarrow> rvalue \<times> heap" where
  "reflect_MakeSlice h t = (Val t (VSlice (Some (length h, 0))), h @ [CVal (VArray [])])"

definition reflect_MakeMap :: "heap \<Rightarrow> ty \<Rightarrow> rvalue \<times> heap" where
  "reflect_MakeMap h t = (Val t (VMap (Some (length h))), h @ [CMap []])"

definition reflect_Len :: "heap \<Rightarrow> rvalue \<Rightarrow> nat option" where
  "reflect_Len h rv =
     (case (rtype rv, valof h rv) of
        (Some (TArray n e), Some (VArray vs)) \<Rightarrow> Some n
      | (Some (TSlice e), Some (VSlice None)) \<Rightarrow> Some 0
      | (Some (TSlice e), Some (VSlice (Some (b, l)))) \<Rightarrow> Some l
      | (Some TString, Some (VStr s)) \<Rightarrow> Some (length s)
      | (Some (TMap k e), Some (VMap None)) \<Rightarrow> Some 0
      | (Some (TMap k e), Some (VMap (Some a))) \<Rightarrow>
          (if a < length h then (case h ! a of CMap m \<Rightarrow> Some (length m) | _ \<Rightarrow> None) else None)
      | _ \<Rightarrow> None)"

definition reflect_Field :: "heap \<Rightarrow> rvalue \<Rightarrow> nat \<Rightarrow> rvalue option" where
  "reflect_Field h rv i =
     (case rv of
        Val (TStruct n fs ts) (VStruct vs) \<Rightarrow>
          (if i < length ts \<and> i < length vs then Some (Val (ts ! i) (vs ! i)) else None)
      | Place (TStruct n fs ts) a sel \<Rightarrow>
          (if i < length ts then Some (Place (ts ! i) a (sel @ [i])) else None)
      | _ \<Rightarrow> None)"

definition reflect_Index :: "heap \<Rightarrow> rvalue \<Rightarrow> int \<Rightarrow> rvalue option" where
  "reflect_Index h rv i =
     (case rv of
        Val (TArray n e) (VArray vs) \<Rightarrow>
          (if 0 \<le> i \<and> nat i < n \<and> nat i < length vs then Some (Val e (vs ! nat i)) else None)
      | Place (TArray n e) a sel \<Rightarrow>
          (if 0 \<le> i \<and> nat i < n then Some (Place e a (sel @ [nat i])) else None)
      | _ \<Rightarrow>
          (case (rtype rv, valof h rv) of
             (Some (TSlice e), Some (VSlice (Some (b, l)))) \<Rightarrow>
               (if 0 \<le> i \<and> nat i < l then Some (Place e b [nat i]) else None)
           | _ \<Rightarrow> None))"

definition map_cell :: "heap \<Rightarrow> nat \<Rightarrow> (val \<times> val) list option" where
  "map_cell h a = (if a < length h then (case h ! a of CMap m \<Rightarrow> Some m | CVal v \<Rightarrow> None) else None)"

definition reflect_MapIndex :: "heap \<Rightarrow> rvalue \<Rightarrow> rvalue \<Rightarrow> rvalue option" where
  "reflect_MapIndex h m k =
     (case (rtype m, valof h m) of
        (Some (TMap kt et), Some (VMap r)) \<Rightarrow>
          (if rtype k = Some kt
           then (case valof h k of
                   None \<Rightarrow> None
                 | Some kv \<Rightarrow>
                     (case r of
                        None \<Rightarrow> Some Invalid
                      | Some a \<Rightarrow>
                          (case map_cell h a of
                             None \<Rightarrow> None
                           | Some al \<Rightarrow>
                               Some (case map_of al kv of None \<Rightarrow> Invalid | Some v \<Rightarrow> Val et v))))
           else None)
      | _ \<Rightarrow> None)"

definition reflect_SetMapIndex :: "heap \<Rightarrow> rvalue \<Rightarrow> rvalue \<Rightarrow> rvalue \<Rightarrow> heap option" where
  "reflect_SetMapIndex h m k x =
     (case (rtype m, valof h m) of
        (Some (TMap kt et), Some (VMap r)) \<Rightarrow>
          (if rtype k = Some kt
           then (case valof h k of
                   None \<Rightarrow> None
                 | Some kv \<Rightarrow>
                     (if x = Invalid
                      then (case r of
                              None \<Rightarrow> Some h
                            | Some a \<Rightarrow>
                                (case map_cell h a of
                                   None \<Rightarrow> None
                                 | Some al \<Rightarrow> Some (h[a := CMap (AList.delete kv al)])))
                      else if rtype x = Some et
                      then (case (valof h x, r) of
                              (Some xv, Some a) \<Rightarrow>
                                (case map_cell h a of
                                   None \<Rightarrow> None
                                 | Some al \<Rightarrow> Some (h[a := CMap (AList.update kv xv al)]))
                            | _ \<Rightarrow> None)
                      else None))
           else None)
      | _ \<Rightarrow> None)"

definition reflect_Append :: "heap \<Rightarrow> rvalue \<Rightarrow> rvalue \<Rightarrow> (rvalue \<times> heap) option" where
  "reflect_Append h s x =
     (case (rtype s, valof h s) of
        (Some (TSlice e), Some (VSlice hdr)) \<Rightarrow>
          (if rtype x = Some e
           then (case valof h x of
                   None \<Rightarrow> None
                 | Some xv \<Rightarrow>
                     (case hdr of
                        None \<Rightarrow>
                          Some (Val (TSlice e) (VSlice (Some (length h, 1))), h @ [CVal (VArray [xv])])
                      | Some (b, l) \<Rightarrow>
                          (case load h b [] of
                             Some (VArray xs) \<Rightarrow>
                               (if l < length xs
                                then Some (Val (TSlice e) (VSlice (Some (b, l + 1))),
                                           h[b := CVal (VArray (xs[l := xv]))])
                                else Some (Val (TSlice e) (VSlice (Some (length h, l + 1))),
                                           h @ [CVal (VArray (take l xs @ [xv]))]))
                           | _ \<Rightarrow> None)))
           else None)
      | _ \<Rightarrow> None)"

section \<open>Value utilities\<close>

text \<open>
  A value of Go's type \<open>any\<close> that is used as a key is \<open>nil\<close>, an \<open>int\<close> or a
  \<open>string\<close>. \<open>ToString\<close> is \<open>fmt.Sprintf("%+v", a)\<close>: the decimal form of an integer, the
  string itself, \<open><nil>\<close> for \<open>nil\<close>. \<open>Itoa\<close> is \<open>strconv.Itoa\<close>.
\<close>

datatype key = KNil | KInt int | KStr string

definition digit :: "nat \<Rightarrow> char" where
  "digit d = char_of (48 + d)"

fun utoa :: "nat \<Rightarrow> string" where
  "utoa n = (if n < 10 then [digit n] else utoa (n div 10) @ [digit (n mod 10)])"

declare utoa.simps [simp del]

definition Itoa :: "int \<Rightarrow> string" where
  "Itoa i = (if i < 0 then CHR ''-'' # utoa (nat (- i)) else utoa (nat i))"

fun ToString :: "key \<Rightarrow> string" where
  "ToString KNil = ''<nil>''"
| "ToString (KInt i) = Itoa i"
| "ToString (KStr s) = s"

text \<open>\<open>Reflect\<close> of a key: \<open>reflect.ValueOf\<close>, which is the invalid value for \<open>nil\<close>.\<close>

fun Reflect :: "key \<Rightarrow> rvalue" where
  "Reflect KNil = Invalid"
| "Reflect (KInt i) = Val TInt (VInt i)"
| "Reflect (KStr s) = Val TString (VStr s)"

fun is_pointer :: "ty \<Rightarrow> bool" where
  "is_pointer (TPtr t) = True"
| "is_pointer _ = False"

fun IsPointing :: "rvalue \<Rightarrow> bool" where
  "IsPointing Invalid = False"
| "IsPointing (Val t v) = is_pointer t"
| "IsPointing (Place t a sel) = is_pointer t"

fun depth :: "rvalue \<Rightarrow> nat" where
  "depth Invalid = 0"
| "depth (Val t v) = size t"
| "depth (Place t a sel) = size t"

function Concrete :: "heap \<Rightarrow> rvalue \<Rightarrow> rvalue option" where
  "Concrete h rv =
     (if IsPointing rv
      then (case reflect_Elem h rv of None \<Rightarrow> None | Some rv' \<Rightarrow> Concrete h rv')
      else Some rv)"
  by pat_completeness auto
termination
proof (relation "measure (\<lambda>(h, rv). depth rv)")
  show "wf (measure (\<lambda>(h, rv). depth rv))" by simp
next
  fix h rv rv'
  assume "IsPointing rv" and e: "reflect_Elem h rv = Some rv'"
  then obtain t p where t: "rtype rv = Some (TPtr t)" and r: "rv' = deref t p"
    by (auto simp: reflect_Elem_def split: option.splits ty.splits val.splits)
  from t have "depth rv = size (TPtr t)" by (cases rv) auto
  moreover from r have "depth rv' \<le> size t" by (cases p) auto
  ultimately show "((h, rv'), (h, rv)) \<in> measure (\<lambda>(h, rv). depth rv)" by simp
qed

declare Concrete.simps [simp del]

fun ConcreteType :: "ty \<Rightarrow> ty" where
  "ConcreteType (TPtr t) = ConcreteType t"
| "ConcreteType t = t"

definition PointerMaybe :: "heap \<Rightarrow> rvalue \<Rightarrow> rvalue option" where
  "PointerMaybe h rv =
     (if IsPointing rv
      then (case reflect_Elem h rv of
              None \<Rightarrow> None
            | Some e \<Rightarrow> if IsPointing e then Some e else Some rv)
      else Some rv)"

fun nillable :: "ty \<Rightarrow> bool" where
  "nillable (TSlice e) = True"
| "nillable (TPtr e) = True"
| "nillable (TMap k e) = True"
| "nillable _ = False"

fun InitValue :: "heap \<Rightarrow> rvalue \<Rightarrow> ty \<Rightarrow> (bool \<times> heap) option" where
  "InitValue h rv rt =
     (if \<not> IsValid rv then Some (False, h)
      else (case (if nillable rt then reflect_IsNil h rv else Some True) of
              None \<Rightarrow> None
            | Some isnil \<Rightarrow>
                if nillable rt \<and> \<not> isnil then Some (True, h)
                else if nillable rt \<and> \<not> CanSet rv then Some (False, h)
                else (case rt of
                        TSlice e \<Rightarrow>
                          (case reflect_MakeSlice h rt of (s, h1) \<Rightarrow>
                             (case reflect_Set h1 rv s of
                                None \<Rightarrow> None
                              | Some h2 \<Rightarrow> Some (True, h2)))
                      | TMap k e \<Rightarrow>
                          (case reflect_MakeMap h rt of (m, h1) \<Rightarrow>
                             (case reflect_Set h1 rv m of
                                None \<Rightarrow> None
                              | Some h2 \<Rightarrow> Some (True, h2)))
                      | TPtr e \<Rightarrow>
                          (case reflect_New h e of (ptr, h1) \<Rightarrow>
                             (case reflect_Elem h1 ptr of
                                None \<Rightarrow> None
                              | Some pe \<Rightarrow>
                                  (case InitValue h1 pe e of
                                     None \<Rightarrow> None
                                   | Some (ok, h2) \<Rightarrow>
                                       if \<not> ok then Some (False, h2)
                                       else (case reflect_Set h2 rv ptr of
                                               None \<Rightarrow> None
                                             | Some h3 \<Rightarrow> Some (True, h3)))))
                      | _ \<Rightarrow> Some (True, h))))"

declare InitValue.simps [simp del]

definition InitType :: "heap \<Rightarrow> ty \<Rightarrow> (rvalue \<times> heap) option" where
  "InitType h rt =
     (case reflect_New h rt of (rv, h1) \<Rightarrow>
        (case reflect_Elem h1 rv of
           None \<Rightarrow> None
         | Some e \<Rightarrow>
             (case InitValue h1 e rt of
                None \<Rightarrow> None
              | Some (ok, h2) \<Rightarrow> if \<not> ok then Some (Invalid, h2) else Some (e, h2))))"

definition Init :: "heap \<Rightarrow> rvalue \<Rightarrow> (rvalue \<times> heap) option" where
  "Init h rv =
     (case rtype rv of
        None \<Rightarrow> None
      | Some t \<Rightarrow>
          (case InitValue h rv t of
             None \<Rightarrow> None
           | Some (ok, h1) \<Rightarrow> if \<not> ok then Some (Invalid, h1) else Some (rv, h1)))"

section \<open>Nodes\<close>

text \<open>
  The read and write functions of a node are the closures the library creates:
  \<open>indexGet\<close>, \<open>mapGet\<close>, \<open>getFieldGet(i)\<close> and \<open>getMethodGet(i)\<close>, and their writing
  counterparts. They are given by name here and applied by \<open>callGet\<close> and \<open>callSet\<close>; an
  absent function is \<open>None\<close>.
\<close>

datatype error = ErrSetNotSupported | ErrGetNotSupported | ErrGetInvalid

datatype NodeGet = IndexGet | MapGet | FieldGet nat | MethodGet nat

datatype NodeSet = IndexSet | MapSet | FieldSet nat | MethodSet nat

record Node =
  KeyString :: string
  Key :: key
  KeyType :: ty
  Type :: ty
  CopyOnly :: bool
  Get :: "NodeGet option"
  Set :: "NodeSet option"

definition IsDynamic :: "Node \<Rightarrow> bool" where
  "IsDynamic n = (Key n = KNil \<and> KeyString n = [])"

definition IsReadOnly :: "Node \<Rightarrow> bool" where
  "IsReadOnly n = (Set n = None)"

definition IsWriteOnly :: "Node \<Rightarrow> bool" where
  "IsWriteOnly n = (Get n = None)"

definition Node_ForKey :: "Node \<Rightarrow> key \<Rightarrow> Node" where
  "Node_ForKey n k = (if \<not> IsDynamic n then n else n\<lparr>Key := k, KeyString := ToString k\<rparr>)"

record Nodes =
  InOrder :: "Node list"
  ByKey :: "string \<Rightarrow> Node option"

definition Add :: "Node \<Rightarrow> Nodes \<Rightarrow> Nodes" where
  "Add n nodes =
     (case ByKey nodes (KeyString n) of
        None \<Rightarrow> \<lparr>InOrder = InOrder nodes @ [n], ByKey = (ByKey nodes)(KeyString n \<mapsto> n)\<rparr>
      | Some _ \<Rightarrow> nodes)"

definition NewNodes :: "Node list \<Rightarrow> Nodes" where
  "NewNodes initial = fold Add initial \<lparr>InOrder = [], ByKey = Map.empty\<rparr>"

definition Nodes_ForKey :: "Nodes \<Rightarrow> key \<Rightarrow> Node option" where
  "Nodes_ForKey nodes k =
     (if length (InOrder nodes) = 1 \<and> IsDynamic (InOrder nodes ! 0)
      then Some (Node_ForKey (InOrder nodes ! 0) k)
      else ByKey nodes (ToString k))"

definition KeyStrings :: "Nodes \<Rightarrow> string list" where
  "KeyStrings nodes = map KeyString (filter (\<lambda>n. \<not> IsDynamic n) (InOrder nodes))"

definition Clone :: "Nodes \<Rightarrow> Nodes" where
  "Clone nodes = NewNodes (InOrder nodes)"

text \<open>
  The nodes that the kind of a type gives: the dynamic node of a map or slice type, one
  node per index of an array type and one per field of a struct type. (The fragment has no
  function types and no embedded fields, so the cases \<open>reflect.Func\<close> and \<open>field.Anonymous\<close>
  of \<open>GetTypeNodes\<close> do not arise.)
\<close>

definition mapNode :: "ty \<Rightarrow> ty \<Rightarrow> Node" where
  "mapNode k e =
     \<lparr>KeyString = [], Key = KNil, KeyType = k, Type = e, CopyOnly = True,
      Get = Some MapGet, Set = Some MapSet\<rparr>"

definition sliceNode :: "ty \<Rightarrow> Node" where
  "sliceNode e =
     \<lparr>KeyString = [], Key = KNil, KeyType = TInt, Type = e, CopyOnly = False,
      Get = Some IndexGet, Set = Some IndexSet\<rparr>"

definition arrayNode :: "ty \<Rightarrow> nat \<Rightarrow> Node" where
  "arrayNode e i =
     \<lparr>KeyString = Itoa (int i), Key = KInt (int i), KeyType = TInt, Type = e, CopyOnly = False,
      Get = Some IndexGet, Set = Some IndexSet\<rparr>"

definition fieldNode :: "string list \<Rightarrow> ty list \<Rightarrow> nat \<Rightarrow> Node" where
  "fieldNode fs ts i =
     \<lparr>KeyString = fs ! i, Key = KStr (fs ! i), KeyType = TString, Type = ts ! i,
      CopyOnly = False, Get = Some (FieldGet i), Set = Some (FieldSet i)\<rparr>"

fun kindNodes :: "ty \<Rightarrow> Node list" where
  "kindNodes (TMap k e) = [mapNode k e]"
| "kindNodes (TSlice e) = [sliceNode e]"
| "kindNodes (TArray n e) = map (arrayNode e) [0..<n]"
| "kindNodes (TStruct n fs ts) = map (fieldNode fs ts) [0..<length ts]"
| "kindNodes _ = []"

text \<open>
  The methods of a type as \<open>reflect\<close> lists them: \<open>t.NumMethod()\<close> is the length of the list
  and \<open>t.Method(i)\<close> its element \<open>i\<close> (the exported methods of the method set of \<open>t\<close>, sorted
  by name; for a pointer type, the methods of the pointer). Of a method the library reads
  the name and, through \<open>IsGetter\<close> and \<open>IsSetter\<close>, the numbers of parameters and of results
  of \<open>method.Type\<close>, whether a value of type \<open>error\<close> can be assigned to the first result, and
  the type it gives the node: \<open>Out(0)\<close> for a getter, \<open>In(1)\<close> for a setter (a type of the
  fragment; the field is not read when the method has no such result or parameter). The first
  parameter of \<open>method.Type\<close> is the receiver, so \<open>method.Type.In(0)\<close> is the type \<open>t\<close> itself and
  the test \<open>rt.In(0) != forType\<close> of \<open>IsGetter\<close> and \<open>IsSetter\<close> never holds; \<open>method.Type\<close> is
  of kind \<open>reflect.Func\<close>.
\<close>

record Method =
  MName :: string
  NumIn :: nat
  NumOut :: nat
  ErrorOut :: bool
  In1 :: ty
  Out0 :: ty

type_synonym methods = "ty \<Rightarrow> Method list"

definition noMethods :: methods where
  "noMethods t = []"

definition IsGetter :: "Method \<Rightarrow> bool" where
  "IsGetter m = (\<not> NumIn m \<noteq> 1 \<and> NumOut m = 1)"

definition IsSetter :: "Method \<Rightarrow> bool" where
  "IsSetter m =
     (\<not> (NumOut m > 1 \<or> (NumOut m = 1 \<and> \<not> ErrorOut m)) \<and> \<not> NumIn m \<noteq> 2)"

definition getterNode :: "Method \<Rightarrow> nat \<Rightarrow> Node" where
  "getterNode m i =
     \<lparr>KeyString = MName m, Key = KStr (MName m), KeyType = TString, Type = Out0 m,
      CopyOnly = False, Get = Some (MethodGet i), Set = None\<rparr>"

definition setterNode :: "Method \<Rightarrow> nat \<Rightarrow> Node" where
  "setterNode m i =
     \<lparr>KeyString = MName m, Key = KStr (MName m), KeyType = TString, Type = In1 m,
      CopyOnly = False, Get = None, Set = Some (MethodSet i)\<rparr>"

definition addMethodNodes :: "methods \<Rightarrow> ty \<Rightarrow> Nodes \<Rightarrow> Nodes" where
  "addMethodNodes ms t nodes =
     fold (\<lambda>i nodes.
             let m = ms t ! i in
             if IsGetter m then Add (getterNode m i) nodes
             else if IsSetter m then Add (setterNode m i) nodes
             else nodes)
       [0..<length (ms t)] nodes"

text \<open>
  \<open>typeNodes\<close> is the package's table of the nodes per type. \<open>SetTypeNodes\<close> registers nodes
  for a type. \<open>GetTypeNodes\<close> returns the entry of the type or of its concrete type when there
  is one; otherwise it builds the nodes of the concrete type \<open>c\<close> from its kind and its
  methods and stores them under \<open>c\<close>, and when the pointer type \<open>p\<close> has more methods than
  \<open>c\<close> it stores under \<open>p\<close> a copy of the nodes of the kind with the methods of \<open>p\<close>. The table
  holds pointers, so the entry of \<open>c\<close> is the collection as it is in the end. The result is
  the entry of the type asked for if there is one now, and the nodes of \<open>c\<close> otherwise. The
  function returns the table it leaves.
\<close>

type_synonym typeNodes = "ty \<Rightarrow> Nodes option"

definition SetTypeNodes :: "typeNodes \<Rightarrow> ty \<Rightarrow> Node list \<Rightarrow> typeNodes" where
  "SetTypeNodes tn rt nodes = tn(rt \<mapsto> NewNodes nodes)"

definition GetTypeNodes :: "methods \<Rightarrow> typeNodes \<Rightarrow> ty \<Rightarrow> Nodes \<times> typeNodes" where
  "GetTypeNodes ms tn rt =
     (case tn rt of
        Some nodes \<Rightarrow> (nodes, tn)
      | None \<Rightarrow>
          (let c = ConcreteType rt in
           case tn c of
             Some nodes \<Rightarrow> (nodes, tn)
           | None \<Rightarrow>
               (let kind = fold Add (kindNodes c) (NewNodes []);
                    p = TPtr c;
                    pnodes = addMethodNodes ms p (Clone kind);
                    nodes = addMethodNodes ms c kind;
                    tn = tn(c \<mapsto> nodes);
                    tn = (if length (ms p) \<noteq> length (ms c) then tn(p \<mapsto> pnodes) else tn)
                in case tn rt of
                     Some exactNodes \<Rightarrow> (exactNodes, tn)
                   | None \<Rightarrow> (nodes, tn))))"

section \<open>The read and write functions of nodes\<close>

fun type_Elem :: "ty \<Rightarrow> ty option" where
  "type_Elem (TSlice e) = Some e"
| "type_Elem (TArray n e) = Some e"
| "type_Elem (TPtr e) = Some e"
| "type_Elem (TMap k e) = Some e"
| "type_Elem _ = None"

definition indexGet :: "Node \<Rightarrow> rvalue \<Rightarrow> heap \<Rightarrow> rvalue option" where
  "indexGet n rv h =
     (case Key n of
        KInt index \<Rightarrow>
          (case Concrete h rv of None \<Rightarrow> None | Some c \<Rightarrow> reflect_Index h c index)
      | _ \<Rightarrow> None)"

text \<open>
  The loop of \<open>indexSet\<close>:
  \<^verbatim>\<open>for index >= c.Len() && c.CanSet() { c.Set(reflect.Append(c, reflect.New(c.Type().Elem()).Elem())) }\<close>
\<close>

definition grow_step :: "rvalue \<Rightarrow> heap \<Rightarrow> heap option" where
  "grow_step c h =
     (case rtype c of
        None \<Rightarrow> None
      | Some t \<Rightarrow>
          (case type_Elem t of
             None \<Rightarrow> None
           | Some e \<Rightarrow>
               (case reflect_New h e of (p, h1) \<Rightarrow>
                  (case reflect_Elem h1 p of
                     None \<Rightarrow> None
                   | Some z \<Rightarrow>
                       (case reflect_Append h1 c z of
                          None \<Rightarrow> None
                        | Some (s, h2) \<Rightarrow> reflect_Set h2 c s)))))"

lemma sel_get_put: "sel_put v sel x = Some w \<Longrightarrow> sel_get w sel = Some x"
  by (induction v sel x arbitrary: w rule: sel_put.induct) (auto split: if_splits option.splits)

lemma load_store: "store h a sel x = Some h' \<Longrightarrow> load h' a sel = Some x"
  by (auto simp: store_def load_def sel_get_put split: if_splits cell.splits option.splits)

lemma load_append_eq: "a < length h \<Longrightarrow> load (h @ cs) a sel = load h a sel"
  by (auto simp: load_def nth_append split: if_splits)

lemma grow_step_Len:
  assumes "reflect_Len h c = Some l" "CanSet c" "grow_step c h = Some h'"
  shows "reflect_Len h' c = Some (Suc l)"
proof -
  from assms(2) obtain t a sel where c: "c = Place t a sel" by (cases c) auto
  from assms(1) c have a: "a < length h"
    by (auto simp: reflect_Len_def load_def split: if_splits option.splits ty.splits)
  from assms(3) c obtain e s h2 where t: "t = TSlice e"
    and s: "reflect_Append (h @ [CVal (zero e)]) c (Place e (length h) []) = Some (s, h2)"
    and st: "reflect_Set h2 c s = Some h'"
    by (cases t) (auto simp: grow_step_def reflect_New_def reflect_Elem_def reflect_Append_def
                       split: option.splits prod.splits)
  from assms(1) c t a obtain hdr where hdr: "load h a sel = Some (VSlice hdr)"
      "l = (case hdr of None \<Rightarrow> 0 | Some (b, l) \<Rightarrow> l)"
    by (auto simp: reflect_Len_def split: option.splits val.splits)
  from s c t hdr a obtain b where "s = Val (TSlice e) (VSlice (Some (b, Suc l)))"
    by (auto simp: reflect_Append_def load_append_eq split: option.splits val.splits if_splits)
  with st c t have "load h' a sel = Some (VSlice (Some (b, Suc l)))"
    by (auto simp: reflect_Set_def load_store)
  then show ?thesis using c t by (simp add: reflect_Len_def)
qed

function indexSet_grow :: "int \<Rightarrow> rvalue \<Rightarrow> heap \<Rightarrow> heap option" where
  "indexSet_grow index c h =
     (case reflect_Len h c of
        None \<Rightarrow> None
      | Some len \<Rightarrow>
          if index \<ge> int len \<and> CanSet c
          then (case grow_step c h of None \<Rightarrow> None | Some h' \<Rightarrow> indexSet_grow index c h')
          else Some h)"
  by pat_completeness auto
termination
proof (relation "measure (\<lambda>(index, c, h). nat (index + 1) - the (reflect_Len h c))")
  show "wf (measure (\<lambda>(index, c, h). nat (index + 1) - the (reflect_Len h c)))" by simp
next
  fix index :: int and c h len h'
  assume l: "reflect_Len h c = Some len" and g: "int len \<le> index \<and> CanSet c"
    and s: "grow_step c h = Some h'"
  then have "reflect_Len h' c = Some (Suc len)" by (simp add: grow_step_Len)
  with l g show "((index, c, h'), (index, c, h))
      \<in> measure (\<lambda>(index, c, h). nat (index + 1) - the (reflect_Len h c))"
    by (simp, linarith)
qed

declare indexSet_grow.simps [simp del]

definition indexSet :: "Node \<Rightarrow> rvalue \<Rightarrow> rvalue \<Rightarrow> heap \<Rightarrow> (error option \<times> heap) option" where
  "indexSet n rv x h =
     (case Key n of
        KInt index \<Rightarrow>
          (case Concrete h rv of
             None \<Rightarrow> None
           | Some c \<Rightarrow>
               if index < 0 then Some (Some ErrSetNotSupported, h)
               else (case indexSet_grow index c h of
                       None \<Rightarrow> None
                     | Some h1 \<Rightarrow>
                         (case reflect_Index h1 c index of
                            None \<Rightarrow> None
                          | Some el \<Rightarrow>
                              if \<not> CanSet el then Some (Some ErrSetNotSupported, h1)
                              else (case reflect_Set h1 el x of
                                      None \<Rightarrow> None
                                    | Some h2 \<Rightarrow> Some (None, h2)))))
      | _ \<Rightarrow> None)"

definition mapGet :: "Node \<Rightarrow> rvalue \<Rightarrow> heap \<Rightarrow> rvalue option" where
  "mapGet n rv h =
     (case Concrete h rv of None \<Rightarrow> None | Some c \<Rightarrow> reflect_MapIndex h c (Reflect (Key n)))"

definition mapSet :: "Node \<Rightarrow> rvalue \<Rightarrow> rvalue \<Rightarrow> heap \<Rightarrow> (error option \<times> heap) option" where
  "mapSet n rv x h =
     (case Concrete h rv of
        None \<Rightarrow> None
      | Some c \<Rightarrow>
          (case reflect_SetMapIndex h c (Reflect (Key n)) x of
             None \<Rightarrow> None
           | Some h1 \<Rightarrow> Some (None, h1)))"

definition fieldGet :: "nat \<Rightarrow> Node \<Rightarrow> rvalue \<Rightarrow> heap \<Rightarrow> rvalue option" where
  "fieldGet i n rv h =
     (case Concrete h rv of None \<Rightarrow> None | Some c \<Rightarrow> reflect_Field h c i)"

definition fieldSet :: "nat \<Rightarrow> Node \<Rightarrow> rvalue \<Rightarrow> rvalue \<Rightarrow> heap \<Rightarrow> (error option \<times> heap) option" where
  "fieldSet i n rv x h =
     (case Concrete h rv of
        None \<Rightarrow> None
      | Some c \<Rightarrow>
          (case reflect_Field h c i of
             None \<Rightarrow> None
           | Some f \<Rightarrow>
               if \<not> CanSet f then Some (Some ErrSetNotSupported, h)
               else (case reflect_Set h f x of
                       None \<Rightarrow> None
                     | Some h1 \<Rightarrow> Some (None, h1))))"

text \<open>
  The call of a read or write function. The functions of a method node call a method of
  the program, \<open>rv.Method(i).Call(...)\<close>; the bodies of the methods are not part of the
  library, and \<open>callGet\<close> and \<open>callSet\<close> are left unspecified on them. A read returns a value
  and no heap: it is taken to leave the heap as it is, also when it calls a method.
\<close>

fun callGet :: "NodeGet \<Rightarrow> Node \<Rightarrow> rvalue \<Rightarrow> heap \<Rightarrow> rvalue option" where
  "callGet IndexGet = indexGet"
| "callGet MapGet = mapGet"
| "callGet (FieldGet i) = fieldGet i"

fun callSet :: "NodeSet \<Rightarrow> Node \<Rightarrow> rvalue \<Rightarrow> rvalue \<Rightarrow> heap \<Rightarrow> (error option \<times> heap) option" where
  "callSet IndexSet = indexSet"
| "callSet MapSet = mapSet"
| "callSet (FieldSet i) = fieldSet i"

section \<open>Paths\<close>

record Path =
  root :: ty
  nodes :: "Node list"

definition NewPath :: "ty \<Rightarrow> Path" where
  "NewPath r = \<lparr>root = r, nodes = []\<rparr>"

definition IsEmpty :: "Path \<Rightarrow> bool" where
  "IsEmpty p = (length (nodes p) = 0)"

definition End :: "Path \<Rightarrow> Node option" where
  "End p = (if nodes p = [] then None else Some (last (nodes p)))"

definition Path_Type :: "Path \<Rightarrow> ty" where
  "Path_Type p = (if IsEmpty p then root p else Type (last (nodes p)))"

text \<open>
  \<open>NextNodes\<close> and \<open>Next\<close> ask \<open>GetTypeNodes\<close> for the nodes of the type at the end of the
  path; they take the methods of the program's types and the table \<open>typeNodes\<close>, and return
  the table with their result.
\<close>

definition NextNodes :: "methods \<Rightarrow> typeNodes \<Rightarrow> Path \<Rightarrow> Nodes \<times> typeNodes" where
  "NextNodes ms tn p = GetTypeNodes ms tn (Path_Type p)"

definition Next :: "methods \<Rightarrow> typeNodes \<Rightarrow> Path \<Rightarrow> key \<Rightarrow> Path option \<times> typeNodes" where
  "Next ms tn p k =
     (case NextNodes ms tn p of (nextNodes, tn) \<Rightarrow>
        (case Nodes_ForKey nextNodes k of
           None \<Rightarrow> (None, tn)
         | Some nextNode \<Rightarrow>
             (let next = NewPath (root p);
                  next = next\<lparr>nodes := nodes next @ nodes p\<rparr>;
                  next = next\<lparr>nodes := nodes next @ [nextNode]\<rparr>
              in (Some next, tn))))"

text \<open>\<open>Path.Get\<close>: the value read and the error, or \<open>None\<close> where a read panics.\<close>

fun Get_loop :: "Node list \<Rightarrow> rvalue \<Rightarrow> heap \<Rightarrow> (rvalue \<times> error option) option" where
  "Get_loop [] rv h = Some (rv, None)"
| "Get_loop (node # rest) rv h =
     (case Get node of
        None \<Rightarrow> Some (Invalid, Some ErrGetNotSupported)
      | Some g \<Rightarrow>
          (case callGet g node rv h of
             None \<Rightarrow> None
           | Some rv' \<Rightarrow>
               if \<not> IsValid rv' then Some (rv', Some ErrGetInvalid)
               else Get_loop rest rv' h))"

definition Path_Get :: "Path \<Rightarrow> rvalue \<Rightarrow> heap \<Rightarrow> (rvalue \<times> error option) option" where
  "Path_Get p rv h = (if IsEmpty p then Some (rv, None) else Get_loop (nodes p) rv h)"

text \<open>
  \<open>Path.Set\<close>. \<open>precheck\<close> is the first loop over the nodes; \<open>forward\<close> is the second, over
  the nodes before the last, which fills \<open>values\<close> and finds \<open>setBackTo\<close>; \<open>writeback\<close> is the
  last, from \<open>k = last\<close> down to \<open>setBackTo + 1\<close>.
\<close>

fun precheck :: "Node list \<Rightarrow> error option" where
  "precheck [] = None"
| "precheck (node # rest) =
     (if Set node = None then Some ErrSetNotSupported
      else if Get node = None \<and> rest \<noteq> [] then Some ErrGetNotSupported
      else precheck rest)"

text \<open>
  \<^verbatim>\<open>if !next.IsValid() { next = InitType(node.Type); if !next.IsValid() { return ErrGetInvalid };
     if setBackTo == -1 { setBackTo = i } }\<close>
\<close>

definition vivify :: "Node \<Rightarrow> nat \<Rightarrow> int \<Rightarrow> rvalue \<Rightarrow> heap
    \<Rightarrow> ((error + rvalue \<times> int) \<times> heap) option" where
  "vivify node i setBackTo next h =
     (if \<not> IsValid next
      then (case InitType h (Type node) of
              None \<Rightarrow> None
            | Some (next', h1) \<Rightarrow>
                if \<not> IsValid next' then Some (Inl ErrGetInvalid, h1)
                else Some (Inr (next', if setBackTo = - 1 then int i else setBackTo), h1))
      else Some (Inr (next, setBackTo), h))"

text \<open>
  \<^verbatim>\<open>if !next.CanSet() { ptr := reflect.New(next.Type()); ptr.Elem().Set(next); next = ptr.Elem() }\<close>
\<close>

definition holder :: "rvalue \<Rightarrow> heap \<Rightarrow> (rvalue \<times> heap) option" where
  "holder next h =
     (if \<not> CanSet next
      then (case rtype next of
              None \<Rightarrow> None
            | Some t \<Rightarrow>
                (case reflect_New h t of (ptr, h1) \<Rightarrow>
                   (case reflect_Elem h1 ptr of
                      None \<Rightarrow> None
                    | Some e \<Rightarrow>
                        (case reflect_Set h1 e next of
                           None \<Rightarrow> None
                         | Some h2 \<Rightarrow> Some (e, h2)))))
      else Some (next, h))"

fun forward :: "Node list \<Rightarrow> nat \<Rightarrow> int \<Rightarrow> rvalue list \<Rightarrow> heap
    \<Rightarrow> ((error + int \<times> rvalue list) \<times> heap) option" where
  "forward [] i setBackTo values h = Some (Inr (setBackTo, values), h)"
| "forward (node # rest) i setBackTo values h =
     (let setBackTo = (if CopyOnly node \<and> setBackTo = - 1 then int i else setBackTo) in
      case Get node of
        None \<Rightarrow> None
      | Some g \<Rightarrow>
          (case callGet g node (values ! i) h of
             None \<Rightarrow> None
           | Some next \<Rightarrow>
               (case vivify node i setBackTo next h of
                  None \<Rightarrow> None
                | Some (Inl e, h1) \<Rightarrow> Some (Inl e, h1)
                | Some (Inr (next, setBackTo), h1) \<Rightarrow>
                    (case holder next h1 of
                       None \<Rightarrow> None
                     | Some (next, h2) \<Rightarrow>
                         (case InitValue h2 next (Type node) of
                            None \<Rightarrow> None
                          | Some (ok, h3) \<Rightarrow>
                              if \<not> ok then Some (Inl ErrGetInvalid, h3)
                              else forward rest (i + 1) setBackTo (values[i + 1 := next]) h3)))))"

fun writeback :: "Node list \<Rightarrow> rvalue list \<Rightarrow> nat \<Rightarrow> int \<Rightarrow> heap
    \<Rightarrow> (error option \<times> heap) option" where
  "writeback ns values 0 setBackTo h = Some (None, h)"
| "writeback ns values (Suc k) setBackTo h =
     (if int (Suc k) > setBackTo
      then (let prev = ns ! k in
            case Set prev of
              None \<Rightarrow> None
            | Some st \<Rightarrow>
                (case callSet st prev (values ! k) (values ! Suc k) h of
                   None \<Rightarrow> None
                 | Some (Some e, h1) \<Rightarrow> Some (Some e, h1)
                 | Some (None, h1) \<Rightarrow> writeback ns values k setBackTo h1))
      else Some (None, h))"

definition Path_Set :: "Path \<Rightarrow> rvalue \<Rightarrow> rvalue \<Rightarrow> heap \<Rightarrow> (error option \<times> heap) option" where
  "Path_Set p rv x h =
     (if nodes p = []
      then (if CanSet rv
            then (case Init h rv of
                    None \<Rightarrow> None
                  | Some (_, h1) \<Rightarrow>
                      (case reflect_Set h1 rv x of None \<Rightarrow> None | Some h2 \<Rightarrow> Some (None, h2)))
            else Some (Some ErrSetNotSupported, h))
      else (case precheck (nodes p) of
              Some e \<Rightarrow> Some (Some e, h)
            | None \<Rightarrow>
                (let last = length (nodes p) - 1;
                     values = (replicate (last + 1) Invalid)[0 := rv]
                 in case forward (butlast (nodes p)) 0 (- 1) values h of
                      None \<Rightarrow> None
                    | Some (Inl e, h1) \<Rightarrow> Some (Some e, h1)
                    | Some (Inr (setBackTo, values), h1) \<Rightarrow>
                        (case Set (nodes p ! last) of
                           None \<Rightarrow> None
                         | Some st \<Rightarrow>
                             (case callSet st (nodes p ! last) (values ! last) x h1 of
                                None \<Rightarrow> None
                              | Some (Some e, h2) \<Rightarrow> Some (Some e, h2)
                              | Some (None, h2) \<Rightarrow>
                                  if setBackTo \<noteq> - 1 then writeback (nodes p) values last setBackTo h2
                                  else Some (None, h2))))))"

section \<open>References\<close>

record Ref =
  root :: rvalue
  path :: Path

definition NewRef :: "rvalue \<Rightarrow> Ref option" where
  "NewRef rv = (case rtype rv of None \<Rightarrow> None | Some t \<Rightarrow> Some \<lparr>root = rv, path = NewPath t\<rparr>)"

definition Ref_Get :: "Ref \<Rightarrow> heap \<Rightarrow> (rvalue \<times> error option) option" where
  "Ref_Get r h = Path_Get (path r) (Ref.root r) h"

definition Ref_Set :: "Ref \<Rightarrow> rvalue \<Rightarrow> heap \<Rightarrow> (error option \<times> heap) option" where
  "Ref_Set r x h = Path_Set (path r) (Ref.root r) x h"

text \<open>
  \<open>Ref.Next\<close> returns a pointer, \<open>nil\<close> (here \<open>None\<close>) when the key is not valid.
  \<open>Ref.Nexts\<close> has a value receiver: \<open>r.Next(keys[0]).Nexts(keys[1:])\<close> dereferences the
  pointer that \<open>Next\<close> returned, which panics when it is \<open>nil\<close>. The outer \<open>None\<close> of
  \<open>Ref_Nexts\<close> is that panic, a result \<open>None\<close> inside \<open>Some\<close> is the \<open>nil\<close> result. Both return
  the table \<open>typeNodes\<close> with their result.
\<close>

definition Ref_Next :: "methods \<Rightarrow> typeNodes \<Rightarrow> Ref \<Rightarrow> key \<Rightarrow> Ref option \<times> typeNodes" where
  "Ref_Next ms tn r k =
     (case Next ms tn (path r) k of
        (None, tn) \<Rightarrow> (None, tn)
      | (Some nextPath, tn) \<Rightarrow> (Some \<lparr>root = Ref.root r, path = nextPath\<rparr>, tn))"

fun Ref_Nexts :: "methods \<Rightarrow> typeNodes \<Rightarrow> Ref \<Rightarrow> key list \<Rightarrow> (Ref option \<times> typeNodes) option" where
  "Ref_Nexts ms tn r [] = Some (Some r, tn)"
| "Ref_Nexts ms tn r [k] = Some (Ref_Next ms tn r k)"
| "Ref_Nexts ms tn r (k # ks) =
     (case Ref_Next ms tn r k of
        (None, tn) \<Rightarrow> None
      | (Some r', tn) \<Rightarrow> Ref_Nexts ms tn r' ks)"

text \<open>
  \<open>GetValueNodes\<close>: one concrete node per key of a map value (in the order in which
  \<open>MapKeys\<close> lists them, here the order of the map object) or per index of a slice value,
  followed by the nodes of the methods of the type, and the nodes of the type otherwise.
  \<open>p.Type()\<close> panics on the invalid value.
\<close>

fun key_of :: "val \<Rightarrow> key option" where
  "key_of (VInt i) = Some (KInt i)"
| "key_of (VStr s) = Some (KStr s)"
| "key_of _ = None"

definition reflect_MapKeys :: "heap \<Rightarrow> rvalue \<Rightarrow> val list option" where
  "reflect_MapKeys h m =
     (case valof h m of
        Some (VMap None) \<Rightarrow> Some []
      | Some (VMap (Some a)) \<Rightarrow> map_option (map fst) (map_cell h a)
      | _ \<Rightarrow> None)"

definition keyNode :: "ty \<Rightarrow> ty \<Rightarrow> key \<Rightarrow> Node" where
  "keyNode kt et k =
     \<lparr>KeyString = ToString k, Key = k, KeyType = kt, Type = et, CopyOnly = True,
      Get = Some MapGet, Set = Some MapSet\<rparr>"

definition GetValueNodes :: "methods \<Rightarrow> typeNodes \<Rightarrow> heap \<Rightarrow> rvalue \<Rightarrow> (Nodes \<times> typeNodes) option" where
  "GetValueNodes ms tn h v =
     (case (Concrete h v, PointerMaybe h v) of
        (Some c, Some p) \<Rightarrow>
          (case rtype c of
             Some (TMap kt et) \<Rightarrow>
               (case reflect_MapKeys h c of
                  None \<Rightarrow> None
                | Some mapKeys \<Rightarrow>
                    (if list_all (\<lambda>mapKey. key_of mapKey \<noteq> None) mapKeys
                     then Some (addMethodNodes ms (TMap kt et)
                                  (fold Add (map (\<lambda>mapKey. keyNode kt et (the (key_of mapKey))) mapKeys)
                                     (NewNodes [])), tn)
                     else None))
           | Some (TSlice e) \<Rightarrow>
               (case reflect_Len h c of
                  None \<Rightarrow> None
                | Some n \<Rightarrow>
                    Some (addMethodNodes ms (TSlice e)
                            (fold Add (map (arrayNode e) [0..<n]) (NewNodes [])), tn))
           | _ \<Rightarrow> (case rtype p of None \<Rightarrow> None | Some t \<Rightarrow> Some (GetTypeNodes ms tn t)))
      | _ \<Rightarrow> None)"

text \<open>
  \<open>Ref.NextNodes\<close>: the outer \<open>None\<close> is a panic, a result \<open>None\<close> inside \<open>Some\<close> the \<open>nil\<close>
  result.
\<close>

definition Ref_NextNodes :: "methods \<Rightarrow> typeNodes \<Rightarrow> Ref \<Rightarrow> heap \<Rightarrow> (Nodes option \<times> typeNodes) option" where
  "Ref_NextNodes ms tn r h =
     (case Ref_Get r h of
        None \<Rightarrow> None
      | Some (rv, err) \<Rightarrow>
          if err = None then Some (None, tn)
          else (case GetValueNodes ms tn h rv of
                  None \<Rightarrow> None
                | Some (ns, tn) \<Rightarrow> Some (Some ns, tn)))"

section \<open>The decoder\<close>

text \<open>
  The decoder of scalar values. \<open>strings.ToLower\<close> and \<open>strconv.ParseInt\<close> are library
  functions and are parameters here (\<open>lower\<close>, and the field \<open>Int\<close> of the decoder, written \<open>Int'\<close>). The
  branches of \<open>Parse\<close> for floating point and complex numbers and for arrays, slices, maps
  and structs, which split their input with regular expressions, are not part of the
  model: \<open>Parse\<close> is \<open>None\<close> for these kinds, as it is where the program panics. No type of
  the fragment implements \<open>encoding.TextUnmarshaler\<close>. An error built by \<open>fmt.Errorf\<close> is
  kept by its kind and the text it quotes.
\<close>

datatype decode_error = ErrDecodeInvalid | ErrCustom string | ErrParseBool string
  | ErrParseInt string

record Decoder =
  Parsers :: "ty \<Rightarrow> (string \<Rightarrow> val option) option"
  Int' :: "string \<Rightarrow> nat \<Rightarrow> int option"
  Trues :: "string set"
  Falses :: "string set"

definition NewDecoder :: "(string \<Rightarrow> nat \<Rightarrow> int option) \<Rightarrow> Decoder" where
  "NewDecoder parseInt =
     \<lparr>Parsers = (\<lambda>t. None),
      Int' = parseInt,
      Trues = {''true'', ''t'', ''yes'', ''ya'', ''y'', ''si'', ''1'', ''x''},
      Falses = {''false'', ''f'', ''no'', ''n'', ''0'', ''''}\<rparr>"

definition setConcrete :: "heap \<Rightarrow> rvalue \<Rightarrow> rvalue \<Rightarrow> val \<Rightarrow> ((rvalue \<times> decode_error option) \<times> heap) option" where
  "setConcrete h v concrete x =
     (case rtype concrete of
        None \<Rightarrow> None
      | Some t \<Rightarrow>
          (case reflect_Set h concrete (Val t x) of
             None \<Rightarrow> None
           | Some h1 \<Rightarrow> Some ((v, None), h1)))"

definition Parse :: "(string \<Rightarrow> string) \<Rightarrow> Decoder \<Rightarrow> string \<Rightarrow> ty \<Rightarrow> heap
    \<Rightarrow> ((rvalue \<times> decode_error option) \<times> heap) option" where
  "Parse lower d s rt h =
     (case InitType h rt of
        None \<Rightarrow> None
      | Some (v, h1) \<Rightarrow>
          (case Concrete h1 v of
             None \<Rightarrow> None
           | Some concrete \<Rightarrow>
               (case rtype concrete of
                  None \<Rightarrow> None
                | Some ct \<Rightarrow>
                    (case Parsers d ct of
                       Some parser \<Rightarrow>
                         (case parser s of
                            None \<Rightarrow> Some ((v, Some (ErrCustom s)), h1)
                          | Some parsed \<Rightarrow> setConcrete h1 v concrete parsed)
                     | None \<Rightarrow>
                         (case ct of
                            TBool \<Rightarrow>
                              if lower s \<in> Trues d then setConcrete h1 v concrete (VBool True)
                              else if lower s \<in> Falses d then setConcrete h1 v concrete (VBool False)
                              else Some ((v, Some (ErrParseBool s)), h1)
                          | TInt \<Rightarrow>
                              (case Int' d s 64 of
                                 None \<Rightarrow> Some ((v, Some (ErrParseInt s)), h1)
                               | Some parsed \<Rightarrow> setConcrete h1 v concrete (VInt parsed))
                          | TString \<Rightarrow> setConcrete h1 v concrete (VStr s)
                          | _ \<Rightarrow> None)))))"

definition Decode :: "(string \<Rightarrow> string) \<Rightarrow> Decoder \<Rightarrow> rvalue \<Rightarrow> string \<Rightarrow> heap
    \<Rightarrow> (decode_error option \<times> heap) option" where
  "Decode lower d v s h =
     (case Init h v of
        None \<Rightarrow> None
      | Some (val, h1) \<Rightarrow>
          (case rtype val of
             Some (TPtr t) \<Rightarrow>
               (case Parse lower d s t h1 of
                  None \<Rightarrow> None
                | Some ((parsed, Some err), h2) \<Rightarrow> Some (Some err, h2)
                | Some ((parsed, None), h2) \<Rightarrow>
                    (case reflect_Elem h2 val of
                       None \<Rightarrow> None
                     | Some e \<Rightarrow>
                         (case reflect_Set h2 e parsed of
                            None \<Rightarrow> None
                          | Some h3 \<Rightarrow> Some (None, h3))))
           | _ \<Rightarrow> Some (Some ErrDecodeInvalid, h1)))"

text \<open>
  \<open>DecodeType\<close> returns the decoded value as an \<open>any\<close> (here its value) and the error.
\<close>

definition DecodeType :: "(string \<Rightarrow> string) \<Rightarrow> Decoder \<Rightarrow> ty \<Rightarrow> string \<Rightarrow> heap
    \<Rightarrow> ((val option \<times> decode_error option) \<times> heap) option" where
  "DecodeType lower d t s h =
     (case reflect_New h t of (v, h1) \<Rightarrow>
        (case Decode lower d v s h1 of
           None \<Rightarrow> None
         | Some (Some err, h2) \<Rightarrow> Some ((None, Some err), h2)
         | Some (None, h2) \<Rightarrow>
             (case reflect_Elem h2 v of
                None \<Rightarrow> None
              | Some e \<Rightarrow>
                  (case valof h2 e of
                     None \<Rightarrow> None
                   | Some x \<Rightarrow> Some ((Some x, None), h2)))))"


section \<open>Paths whose nodes are held in arrays\<close>

text \<open>
  For the claim that \<open>Next\<close> mutates no existing path, the nodes of a path are modelled as
  Go holds them: a slice is an array, a length and a capacity, and the arrays are in a
  store. \<open>append\<close> writes in place when the capacity suffices and otherwise copies into a new
  array, whose capacity is at least what is needed and otherwise as the runtime chooses
  (\<open>grow\<close>). A slot never written is \<open>None\<close>. \<open>path_of\<close> reads the path that a header denotes.
\<close>

record nslice =
  arr :: nat
  len :: nat
  cap :: nat

type_synonym nstore = "Node option list list"

definition make_nodes :: "nstore \<Rightarrow> nslice \<times> nstore" where
  "make_nodes st = (\<lparr>arr = length st, len = 0, cap = 0\<rparr>, st @ [[]])"

definition read_nodes :: "nstore \<Rightarrow> nslice \<Rightarrow> Node option list" where
  "read_nodes st s = take (len s) (st ! arr s)"

definition append_nodes :: "(nat \<Rightarrow> nat \<Rightarrow> nat) \<Rightarrow> nstore \<Rightarrow> nslice \<Rightarrow> Node option list
    \<Rightarrow> nslice \<times> nstore" where
  "append_nodes grow st s xs =
     (let n = len s + length xs in
      if n \<le> cap s
      then (s\<lparr>len := n\<rparr>, st[arr s := take (len s) (st ! arr s) @ xs @ drop n (st ! arr s)])
      else (let c = max n (grow (cap s) n)
            in (\<lparr>arr = length st, len = n, cap = c\<rparr>,
                st @ [take (len s) (st ! arr s) @ xs @ replicate (c - n) None])))"

record SPath =
  sroot :: ty
  snodes :: nslice

definition path_of :: "nstore \<Rightarrow> SPath \<Rightarrow> Path" where
  "path_of st p = \<lparr>Path.root = sroot p, nodes = map the (read_nodes st (snodes p))\<rparr>"

definition Next_store :: "methods \<Rightarrow> typeNodes \<Rightarrow> (nat \<Rightarrow> nat \<Rightarrow> nat) \<Rightarrow> nstore \<Rightarrow> SPath \<Rightarrow> key
    \<Rightarrow> (SPath option \<times> nstore) \<times> typeNodes" where
  "Next_store ms tn grow st p k =
     (case NextNodes ms tn (path_of st p) of (nextNodes, tn) \<Rightarrow>
        (case Nodes_ForKey nextNodes k of
           None \<Rightarrow> ((None, st), tn)
         | Some nextNode \<Rightarrow>
             (case make_nodes st of (s0, st0) \<Rightarrow>
                (case append_nodes grow st0 s0 (read_nodes st0 (snodes p)) of (s1, st1) \<Rightarrow>
                   (case append_nodes grow st1 s1 [Some nextNode] of (s2, st2) \<Rightarrow>
                      ((Some \<lparr>sroot = sroot p, snodes = s2\<rparr>, st2), tn))))))"

section \<open>Observations used in the statements\<close>



text \<open>
  For the statements about writing and reading back: a pointer to a variable; the dynamic
  node of a map type bound to a string key; the path to a field of a record held in a map,
  and the same path below a field of a root record; what the entry of a map must be for
  the path to apply (absent, or a record with the fields of the type) and the fields it
  then starts from; and the round trip itself: \<open>Set\<close> succeeds, \<open>Get\<close> then returns the
  value, and a second \<open>Set\<close> of the same value succeeds, changes no existing cell and
  leaves \<open>Get\<close> returning the value.
\<close>

definition ptr :: "ty \<Rightarrow> nat \<Rightarrow> rvalue" where
  "ptr t a = Val (TPtr t) (VPtr (Some a))"

definition mapAt :: "ty \<Rightarrow> string \<Rightarrow> Node" where
  "mapAt e s = Node_ForKey (mapNode TString e) (KStr s)"

definition mapRecordPath :: "string \<Rightarrow> string list \<Rightarrow> ty list \<Rightarrow> string \<Rightarrow> nat \<Rightarrow> Path" where
  "mapRecordPath nm fs ts s j =
     \<lparr>Path.root = TPtr (TMap TString (TStruct nm fs ts)),
      nodes = [mapAt (TStruct nm fs ts) s, fieldNode fs ts j]\<rparr>"

definition recordMapRecordPath ::
  "string \<Rightarrow> string list \<Rightarrow> ty list \<Rightarrow> nat \<Rightarrow> string \<Rightarrow> string list \<Rightarrow> ty list \<Rightarrow> string \<Rightarrow> nat \<Rightarrow> Path" where
  "recordMapRecordPath rn rfs rts f nm fs ts s j =
     \<lparr>Path.root = TPtr (TStruct rn rfs rts),
      nodes = [fieldNode rfs rts f, mapAt (TStruct nm fs ts) s, fieldNode fs ts j]\<rparr>"

definition entry_ok :: "(val \<times> val) list \<Rightarrow> string \<Rightarrow> ty list \<Rightarrow> bool" where
  "entry_ok al s ts = (case map_of al (VStr s) of None \<Rightarrow> True
      | Some sv \<Rightarrow> (case sv of VStruct vs \<Rightarrow> length vs = length ts | _ \<Rightarrow> False))"

definition entry_fields :: "(val \<times> val) list \<Rightarrow> string \<Rightarrow> ty list \<Rightarrow> val list" where
  "entry_fields al s ts = (case map_of al (VStr s) of Some (VStruct vs) \<Rightarrow> vs | _ \<Rightarrow> map zero ts)"

definition field_map_ok :: "heap \<Rightarrow> val \<Rightarrow> string \<Rightarrow> ty list \<Rightarrow> bool" where
  "field_map_ok h v s ts =
     (case v of
        VMap None \<Rightarrow> True
      | VMap (Some m) \<Rightarrow> (case map_cell h m of None \<Rightarrow> False | Some al \<Rightarrow> entry_ok al s ts)
      | _ \<Rightarrow> False)"

abbreviation roundtrip :: "Path \<Rightarrow> rvalue \<Rightarrow> rvalue \<Rightarrow> heap \<Rightarrow> bool" where
  "roundtrip p rv x h \<equiv>
     (\<exists>h' h''. Path_Set p rv x h = Some (None, h') \<and> Path_Get p rv h' = Some (x, None) \<and>
        Path_Set p rv x h' = Some (None, h'') \<and> Path_Get p rv h'' = Some (x, None) \<and>
        take (length h') h'' = h')"

text \<open>
  For the statements about the nodes of a type. A type has no accessors when none of its
  methods has the form of a getter or of a setter. The names of its methods are names of Go
  when none begins with a digit or a sign. \<open>nodesOf\<close> is what \<open>GetTypeNodes\<close> builds for a
  type from its kind and its methods. A table is \<open>built\<close> when it is the empty table or
  what calls of \<open>GetTypeNodes\<close> have made of it, so that nothing is registered in it through
  \<open>SetTypeNodes\<close>; \<open>inv_tn\<close> is what then holds of it: every entry is \<open>nodesOf\<close> of its type,
  and the entry of a concrete type comes with that of its pointer type when the two have
  different numbers of methods.
\<close>

definition no_accessors :: "methods \<Rightarrow> ty \<Rightarrow> bool" where
  "no_accessors ms t = list_all (\<lambda>m. \<not> IsGetter m \<and> \<not> IsSetter m) (ms t)"


definition nodesOf :: "methods \<Rightarrow> ty \<Rightarrow> Nodes" where
  "nodesOf ms rt =
     (let c = ConcreteType rt;
          kind = fold Add (kindNodes c) (NewNodes []);
          p = TPtr c
      in if rt = p \<and> length (ms p) \<noteq> length (ms c)
         then addMethodNodes ms p (Clone kind)
         else addMethodNodes ms c kind)"

inductive built :: "methods \<Rightarrow> typeNodes \<Rightarrow> bool" for ms :: methods where
  built_empty: "built ms Map.empty"
| built_call: "built ms tn \<Longrightarrow> built ms (snd (GetTypeNodes ms tn rt))"

definition inv_tn :: "methods \<Rightarrow> typeNodes \<Rightarrow> bool" where
  "inv_tn ms tn =
     ((\<forall>t n. tn t = Some n \<longrightarrow> n = nodesOf ms t) \<and>
      (\<forall>c. \<not> is_pointer c \<and> tn c \<noteq> None \<and> length (ms (TPtr c)) \<noteq> length (ms c)
           \<longrightarrow> tn (TPtr c) \<noteq> None))"

text \<open>
  For the statements about nested maps: the type of maps nested \<open>n\<close> deep over a value
  type, with string keys; the nodes that \<open>Next\<close> resolves along a list of keys through such
  maps, and the path of these nodes below a pointer root; and what the statements ask of the
  heap: the maps reached by the keys before the last are map objects, none met twice, up to
  the first entry that is absent or a nil map.
\<close>

fun mapT :: "nat \<Rightarrow> ty \<Rightarrow> ty" where
  "mapT 0 V = V"
| "mapT (Suc n) V = TMap TString (mapT n V)"

fun mapNodes :: "ty \<Rightarrow> string list \<Rightarrow> Node list" where
  "mapNodes V [] = []"
| "mapNodes V (k # ks) = mapAt (mapT (length ks) V) k # mapNodes V ks"

definition mapsPath :: "ty \<Rightarrow> string list \<Rightarrow> Path" where
  "mapsPath V ks = \<lparr>Path.root = TPtr (mapT (length ks) V), nodes = mapNodes V ks\<rparr>"

fun chain :: "heap \<Rightarrow> nat \<Rightarrow> string list \<Rightarrow> nat list \<Rightarrow> bool" where
  "chain h ob [] seen = (map_cell h ob \<noteq> None \<and> ob \<notin> set seen)"
| "chain h ob (k # ks) seen =
     (case map_cell h ob of
        None \<Rightarrow> False
      | Some al \<Rightarrow>
          ob \<notin> set seen \<and>
          (case map_of al (VStr k) of
             None \<Rightarrow> True
           | Some (VMap None) \<Rightarrow> True
           | Some (VMap (Some ob')) \<Rightarrow> chain h ob' ks (ob # seen)
           | Some _ \<Rightarrow> False))"

text \<open>
  For the proofs about \<open>Path.Set\<close>. \<open>step\<close> is one turn of the second loop of \<open>Path.Set\<close>
  without the bookkeeping of \<open>setBackTo\<close>: the read, the creation of a missing value, the
  holder and \<open>InitValue\<close>. \<open>tailSet\<close> is \<open>Path.Set\<close> as a recursion over the nodes when every
  level is written back: one \<open>step\<close>, the nodes below, then the write of the holder into the
  current value. \<open>run\<close> is \<open>Path.Set\<close> from the turn \<open>i\<close> of the second loop on. \<open>cur_ok\<close>: the
  current value is the variable of a map or a pointer to it. \<open>settled\<close>: the entries along the
  keys exist and the last holds the value. \<open>agree\<close>: a heap extends another and agrees with it
  outside a list of cells.
\<close>

definition step :: "Node \<Rightarrow> rvalue \<Rightarrow> heap \<Rightarrow> ((error + rvalue) \<times> heap) option" where
  "step node cur h =
     (case Get node of
        None \<Rightarrow> None
      | Some g \<Rightarrow>
          (case callGet g node cur h of
             None \<Rightarrow> None
           | Some next \<Rightarrow>
               (case vivify node 0 0 next h of
                  None \<Rightarrow> None
                | Some (Inl e, h1) \<Rightarrow> Some (Inl e, h1)
                | Some (Inr (next, sb), h1) \<Rightarrow>
                    (case holder next h1 of
                       None \<Rightarrow> None
                     | Some (next, h2) \<Rightarrow>
                         (case InitValue h2 next (Type node) of
                            None \<Rightarrow> None
                          | Some (ok, h3) \<Rightarrow>
                              if \<not> ok then Some (Inl ErrGetInvalid, h3)
                              else Some (Inr next, h3))))))"

fun tailSet :: "Node list \<Rightarrow> rvalue \<Rightarrow> rvalue \<Rightarrow> heap \<Rightarrow> (error option \<times> heap) option" where
  "tailSet [] cur x h = Some (None, h)"
| "tailSet [n] cur x h = (case Set n of None \<Rightarrow> None | Some st \<Rightarrow> callSet st n cur x h)"
| "tailSet (n # rest) cur x h =
     (case step n cur h of
        None \<Rightarrow> None
      | Some (Inl e, h1) \<Rightarrow> Some (Some e, h1)
      | Some (Inr next, h1) \<Rightarrow>
          (case tailSet rest next x h1 of
             None \<Rightarrow> None
           | Some (Some e, h2) \<Rightarrow> Some (Some e, h2)
           | Some (None, h2) \<Rightarrow>
               (case Set n of None \<Rightarrow> None | Some st \<Rightarrow> callSet st n cur next h2)))"

definition run :: "Node list \<Rightarrow> nat \<Rightarrow> int \<Rightarrow> rvalue list \<Rightarrow> rvalue \<Rightarrow> heap \<Rightarrow> (error option \<times> heap) option" where
  "run ns i sb values x h =
     (let last = length ns - 1 in
      case forward (butlast (drop i ns)) i sb values h of
        None \<Rightarrow> None
      | Some (Inl e, h1) \<Rightarrow> Some (Some e, h1)
      | Some (Inr (setBackTo, values), h1) \<Rightarrow>
          (case Set (ns ! last) of
             None \<Rightarrow> None
           | Some st \<Rightarrow>
               (case callSet st (ns ! last) (values ! last) x h1 of
                  None \<Rightarrow> None
                | Some (Some e, h2) \<Rightarrow> Some (Some e, h2)
                | Some (None, h2) \<Rightarrow>
                    if setBackTo \<noteq> - 1 then writeback ns values last setBackTo h2
                    else Some (None, h2))))"

definition cur_ok :: "rvalue \<Rightarrow> ty \<Rightarrow> nat \<Rightarrow> bool" where
  "cur_ok cur M c = (cur = Place M c [] \<or> cur = Val (TPtr M) (VPtr (Some c)))"

fun settled :: "heap \<Rightarrow> nat \<Rightarrow> string list \<Rightarrow> val \<Rightarrow> nat list \<Rightarrow> bool" where
  "settled h ob [] xv seen = False"
| "settled h ob [k] xv seen =
     (ob \<notin> set seen \<and>
      (case map_cell h ob of None \<Rightarrow> False | Some al \<Rightarrow> map_of al (VStr k) = Some xv))"
| "settled h ob (k # ks) xv seen =
     (ob \<notin> set seen \<and>
      (case map_cell h ob of
         None \<Rightarrow> False
       | Some al \<Rightarrow>
           (case map_of al (VStr k) of
              Some (VMap (Some ob')) \<Rightarrow> settled h ob' ks xv (ob # seen)
            | _ \<Rightarrow> False)))"

definition agree :: "heap \<Rightarrow> heap \<Rightarrow> nat list \<Rightarrow> bool" where
  "agree g h seen = (length h \<le> length g \<and> (\<forall>a<length h. a \<notin> set seen \<longrightarrow> g ! a = h ! a))"

section \<open>Example values\<close>

definition nodeA :: Node where
  "nodeA = Node_ForKey (mapNode TString TInt) (KStr ''A'')"

definition nodeB :: Node where
  "nodeB = Node_ForKey (mapNode TString TInt) (KStr ''B'')"

definition h0 :: heap where
  "h0 = [CVal (VMap (Some 1)), CMap [(VStr ''A'', VInt 6)]]"

definition m0 :: rvalue where
  "m0 = Val (TMap TString TInt) (VMap (Some 1))"


definition ps :: rvalue where
  "ps = Val (TPtr (TSlice TString)) (VPtr (Some 0))"


definition point :: ty where
  "point = TStruct ''point'' [''X'', ''Y''] [TInt, TInt]"

definition outer :: ty where
  "outer = TStruct ''outer'' [''P''] [point]"

definition persons :: ty where
  "persons = TStruct ''persons'' [''ByName''] [TMap TString point]"

definition hm :: heap where
  "hm = [CVal (VMap (Some 1)), CMap [(VStr ''A'', VStruct [VInt 56, VInt 0])]]"

definition st1 :: nstore where
  "st1 = [[Some (mapAt (TMap TString TInt) ''A''), None]]"

definition sp1 :: SPath where
  "sp1 = \<lparr>sroot = TMap TString (TMap TString TInt), snodes = \<lparr>arr = 0, len = 1, cap = 2\<rparr>\<rparr>"

definition hn :: heap where
  "hn = [CVal (VMap (Some 1)), CMap []]"



section \<open>Reading a path\<close>

lemma Path_Get_loop: "Path_Get p rv h = Get_loop (nodes p) rv h"
  by (cases "nodes p") (simp_all add: Path_Get_def IsEmpty_def)

lemma Get_loop_append:
  "Get_loop pre rv h = Some (rv', None) \<Longrightarrow> Get_loop (pre @ ns) rv h = Get_loop ns rv' h"
  by (induction pre arbitrary: rv) (auto split: option.splits if_splits)

lemma Get_loop_error:
  "Get_loop pre rv h = Some (x, Some e) \<Longrightarrow> Get_loop (pre @ ns) rv h = Some (x, Some e)"
  by (induction pre arbitrary: rv) (auto split: option.splits if_splits)

text \<open>
  C6. \<open>Path.Get\<close> replays the read functions of the nodes in order over the root. The empty
  path returns the root with no error. When the nodes before \<open>node\<close> have been read without
  error, reaching \<open>rv'\<close>, the result is \<open>ErrGetNotSupported\<close> if \<open>node\<close> has no read function,
  \<open>ErrGetInvalid\<close> if its read yields an invalid value, and otherwise the result of reading
  the remaining nodes from the value read. An error of a prefix is the result of every
  extension of it.
\<close>

theorem Path_Get_replay:
  "Path_Get \<lparr>Path.root = t, nodes = []\<rparr> rv h = Some (rv, None) \<and>
   (Path_Get \<lparr>Path.root = t, nodes = pre\<rparr> rv h = Some (rv', None) \<longrightarrow>
      Path_Get \<lparr>Path.root = t, nodes = pre @ node # rest\<rparr> rv h =
        (case Get node of
           None \<Rightarrow> Some (Invalid, Some ErrGetNotSupported)
         | Some g \<Rightarrow>
             (case callGet g node rv' h of
                None \<Rightarrow> None
              | Some x \<Rightarrow>
                  if \<not> IsValid x then Some (x, Some ErrGetInvalid)
                  else Path_Get \<lparr>Path.root = t, nodes = rest\<rparr> x h))) \<and>
   (Path_Get \<lparr>Path.root = t, nodes = pre\<rparr> rv h = Some (x, Some e) \<longrightarrow>
      Path_Get \<lparr>Path.root = t, nodes = pre @ rest\<rparr> rv h = Some (x, Some e))"
  by (simp add: Path_Get_loop Get_loop_append Get_loop_error split: option.splits)

theorem Path_Get_replay_witness:
  "Path_Get \<lparr>Path.root = TMap TString TInt, nodes = [nodeA]\<rparr> m0 h0
     = Some (Val TInt (VInt 6), None) \<and>
   Path_Get \<lparr>Path.root = TMap TString TInt, nodes = [nodeB]\<rparr> m0 h0
     = Some (Invalid, Some ErrGetInvalid) \<and>
   Path_Get \<lparr>Path.root = TMap TString TInt, nodes = [nodeA\<lparr>Get := None\<rparr>]\<rparr> m0 h0
     = Some (Invalid, Some ErrGetNotSupported) \<and>
   Path_Get \<lparr>Path.root = TMap TString TInt, nodes = [nodeB, nodeA]\<rparr> m0 h0
     = Some (Invalid, Some ErrGetInvalid)"
proof -
  let ?P = "\<lambda>ns. \<lparr>Path.root = TMap TString TInt, nodes = ns\<rparr>"
  have e: "Path_Get (?P []) m0 h0 = Some (m0, None)"
    using Path_Get_replay [of "TMap TString TInt" m0 h0] by simp
  have A: "Get nodeA = Some MapGet" "callGet MapGet nodeA m0 h0 = Some (Val TInt (VInt 6))"
    by code_simp+
  have B: "Get nodeB = Some MapGet" "callGet MapGet nodeB m0 h0 = Some Invalid"
    by code_simp+
  have a: "Path_Get (?P [nodeA]) m0 h0 = Some (Val TInt (VInt 6), None)"
    using Path_Get_replay [of "TMap TString TInt" m0 h0 "[]" m0 nodeA "[]"] e A
      Path_Get_replay [of "TMap TString TInt" "Val TInt (VInt 6)" h0]
    by simp
  have b: "Path_Get (?P [nodeB]) m0 h0 = Some (Invalid, Some ErrGetInvalid)"
    using Path_Get_replay [of "TMap TString TInt" m0 h0 "[]" m0 nodeB "[]"] e B by simp
  have c: "Path_Get (?P [nodeA\<lparr>Get := None\<rparr>]) m0 h0 = Some (Invalid, Some ErrGetNotSupported)"
    using Path_Get_replay [of "TMap TString TInt" m0 h0 "[]" m0 "nodeA\<lparr>Get := None\<rparr>" "[]"] e
    by simp
  have d: "Path_Get (?P [nodeB, nodeA]) m0 h0 = Some (Invalid, Some ErrGetInvalid)"
    using Path_Get_replay [where t = "TMap TString TInt" and rv = m0 and h = h0
        and pre = "[nodeB]" and x = Invalid and e = ErrGetInvalid and rest = "[nodeA]"] b
    by simp
  from a b c d show ?thesis by simp
qed

section \<open>The pre-check of \<open>Path.Set\<close>\<close>

lemma precheck_append:
  "\<forall>m\<in>set pre. Set m \<noteq> None \<and> Get m \<noteq> None \<Longrightarrow> ns \<noteq> [] \<Longrightarrow>
   precheck (pre @ ns) = precheck ns"
  by (induction pre) auto

lemma precheck_None:
  "precheck ns = None \<longleftrightarrow>
   (\<forall>m\<in>set ns. Set m \<noteq> None) \<and> (\<forall>m\<in>set (butlast ns). Get m \<noteq> None)"
  by (induction ns) auto

lemma precheck_errors:
  "precheck ns = Some e \<Longrightarrow> e = ErrSetNotSupported \<or> e = ErrGetNotSupported"
  by (induction ns) (auto split: if_splits)

lemma Path_Set_precheck_fails:
  "ns \<noteq> [] \<Longrightarrow> precheck ns = Some e \<Longrightarrow>
   Path_Set \<lparr>Path.root = t, nodes = ns\<rparr> rv x h = Some (Some e, h)"
  by (simp add: Path_Set_def)

text \<open>
  C2, as stated: whenever a node of a non-empty path lacks a write function, \<open>Path.Set\<close> fails
  with \<open>ErrSetNotSupported\<close>. The loop checks node by node, the write function and then the
  read function of the same node, so a path whose first node has no read function and whose
  second node has no write function fails with \<open>ErrGetNotSupported\<close>.
\<close>

theorem Path_Set_precheck_order_counterexample:
  "Set (nodeB\<lparr>Set := None\<rparr>) = None \<and>
   Path_Set \<lparr>Path.root = TMap TString (TMap TString TInt),
             nodes = [nodeA\<lparr>Get := None\<rparr>, nodeB\<lparr>Set := None\<rparr>]\<rparr> m0 (Val TInt (VInt 1)) h0
     = Some (Some ErrGetNotSupported, h0)"
  by code_simp

text \<open>
  C2, amended. The nodes of a non-empty path are checked in path order, each node first for
  its write function and then, unless it is the last, for its read function. When the nodes
  before \<open>node\<close> pass both checks, \<open>Path.Set\<close> returns \<open>ErrSetNotSupported\<close> if \<open>node\<close> has no
  write function, and \<open>ErrGetNotSupported\<close> if it has one, has no read function and is not
  the last. Whenever some node lacks a write function or some node before the last lacks
  a read function, the result is one of these two errors. In each case the heap is
  returned unchanged.
\<close>

theorem Path_Set_precheck_first:
  "((\<forall>m\<in>set pre. Set m \<noteq> None \<and> Get m \<noteq> None) \<longrightarrow>
     (Set node = None \<longrightarrow>
        Path_Set \<lparr>Path.root = t, nodes = pre @ node # rest\<rparr> rv x h
          = Some (Some ErrSetNotSupported, h)) \<and>
     (Set node \<noteq> None \<and> Get node = None \<and> rest \<noteq> [] \<longrightarrow>
        Path_Set \<lparr>Path.root = t, nodes = pre @ node # rest\<rparr> rv x h
          = Some (Some ErrGetNotSupported, h))) \<and>
   (ns \<noteq> [] \<and> ((\<exists>m\<in>set ns. Set m = None) \<or> (\<exists>m\<in>set (butlast ns). Get m = None)) \<longrightarrow>
     Path_Set \<lparr>Path.root = t, nodes = ns\<rparr> rv x h = Some (Some ErrSetNotSupported, h) \<or>
     Path_Set \<lparr>Path.root = t, nodes = ns\<rparr> rv x h = Some (Some ErrGetNotSupported, h))"
proof -
  have "Path_Set \<lparr>Path.root = t, nodes = ns\<rparr> rv x h = Some (Some ErrSetNotSupported, h) \<or>
        Path_Set \<lparr>Path.root = t, nodes = ns\<rparr> rv x h = Some (Some ErrGetNotSupported, h)"
    if "ns \<noteq> []" and "(\<exists>m\<in>set ns. Set m = None) \<or> (\<exists>m\<in>set (butlast ns). Get m = None)"
  proof -
    from that(2) have "precheck ns \<noteq> None" by (simp add: precheck_None)
    then obtain e where e: "precheck ns = Some e" by auto
    with that(1) have "Path_Set \<lparr>Path.root = t, nodes = ns\<rparr> rv x h = Some (Some e, h)"
      by (rule Path_Set_precheck_fails)
    with precheck_errors [OF e] show ?thesis by auto
  qed
  then show ?thesis
    by (auto intro!: Path_Set_precheck_fails simp: precheck_append)
qed

theorem Path_Set_precheck_first_witness:
  "Path_Set \<lparr>Path.root = TMap TString TInt, nodes = [nodeA, nodeB\<lparr>Set := None\<rparr>]\<rparr>
      m0 (Val TInt (VInt 1)) h0 = Some (Some ErrSetNotSupported, h0) \<and>
   Path_Set \<lparr>Path.root = TMap TString TInt, nodes = [nodeA, nodeB\<lparr>Get := None\<rparr>, nodeA]\<rparr>
      m0 (Val TInt (VInt 1)) h0 = Some (Some ErrGetNotSupported, h0)"
proof -
  have pre: "\<forall>m\<in>set [nodeA]. Set m \<noteq> None \<and> Get m \<noteq> None" by code_simp
  have w: "Set (nodeB\<lparr>Set := None\<rparr>) = None" by simp
  have r: "Set (nodeB\<lparr>Get := None\<rparr>) \<noteq> None \<and> Get (nodeB\<lparr>Get := None\<rparr>) = None \<and> [nodeA] \<noteq> []"
    by code_simp
  show ?thesis
    using Path_Set_precheck_first [where pre = "[nodeA]" and node = "nodeB\<lparr>Set := None\<rparr>"
        and t = "TMap TString TInt" and rest = "[]" and rv = m0 and x = "Val TInt (VInt 1)"
        and h = h0 and ns = "[nodeA, nodeB\<lparr>Set := None\<rparr>]"]
      Path_Set_precheck_first [where pre = "[nodeA]" and node = "nodeB\<lparr>Get := None\<rparr>"
        and t = "TMap TString TInt" and rest = "[nodeA]" and rv = m0 and x = "Val TInt (VInt 1)"
        and h = h0 and ns = "[]"] pre w r
    by simp
qed

section \<open>The nodes of a reference\<close>

definition r0 :: Ref where
  "r0 = \<lparr>Ref.root = m0, path = NewPath (TMap TString TInt)\<rparr>"

definition rp :: Ref where
  "rp = \<lparr>Ref.root = Val point (VStruct [VInt 1, VInt 2]), path = NewPath point\<rparr>"

lemma Get_loop_error_Invalid:
  "Get_loop ns rv h = Some (x, Some e) \<Longrightarrow> x = Invalid"
  by (induction ns arbitrary: rv) (auto split: option.splits if_splits elim: IsValid.elims)

lemma GetValueNodes_Invalid: "GetValueNodes ms tn h Invalid = None"
  by (simp add: GetValueNodes_def Concrete.simps PointerMaybe_def)

text \<open>
  C10. Whenever \<open>r.Get()\<close> succeeds, \<open>r.NextNodes()\<close> returns \<open>nil\<close>. The node set of the
  referenced value is asked for only when \<open>r.Get()\<close> returns an error; the value it is asked
  for is then the invalid value, on which \<open>GetValueNodes\<close> panics.
\<close>

theorem Ref_NextNodes_nil_on_success:
  "(Ref_Get r h = Some (rv, None) \<longrightarrow> Ref_NextNodes ms tn r h = Some (None, tn)) \<and>
   (Ref_Get r h = Some (rv, Some e) \<longrightarrow>
      Ref_NextNodes ms tn r h
        = map_option (\<lambda>(ns, tn). (Some ns, tn)) (GetValueNodes ms tn h rv) \<and>
      Ref_NextNodes ms tn r h = None)"
  by (auto simp: Ref_NextNodes_def Ref_Get_def Path_Get_loop GetValueNodes_Invalid
           dest!: Get_loop_error_Invalid split: option.splits)

theorem Ref_NextNodes_nil_on_success_witness:
  "Ref_Get (the (fst (Ref_Next noMethods Map.empty r0 (KStr ''A'')))) h0
     = Some (Val TInt (VInt 6), None) \<and>
   map_option fst (Ref_NextNodes noMethods Map.empty
     (the (fst (Ref_Next noMethods Map.empty r0 (KStr ''A'')))) h0) = Some None \<and>
   Ref_Get (the (fst (Ref_Next noMethods Map.empty r0 (KStr ''B'')))) h0
     = Some (Invalid, Some ErrGetInvalid) \<and>
   Ref_NextNodes noMethods Map.empty
     (the (fst (Ref_Next noMethods Map.empty r0 (KStr ''B'')))) h0 = None"
proof -
  let ?A = "the (fst (Ref_Next noMethods Map.empty r0 (KStr ''A'')))"
  let ?B = "the (fst (Ref_Next noMethods Map.empty r0 (KStr ''B'')))"
  have a: "Ref_Get ?A h0 = Some (Val TInt (VInt 6), None)"
    by code_simp
  have b: "Ref_Get ?B h0 = Some (Invalid, Some ErrGetInvalid)"
    by code_simp
  from a Ref_NextNodes_nil_on_success [of ?A h0 "Val TInt (VInt 6)" noMethods Map.empty]
  have 1: "Ref_NextNodes noMethods Map.empty ?A h0 = Some (None, Map.empty)" by blast
  from b Ref_NextNodes_nil_on_success [of ?B h0 Invalid noMethods Map.empty ErrGetInvalid]
  have 2: "Ref_NextNodes noMethods Map.empty ?B h0 = None" by blast
  from a b 1 2 show ?thesis by simp
qed

section \<open>Extending a reference by a list of keys\<close>

lemma Ref_Nexts_fold:
  "Ref_Nexts ms tn r [] = Some (Some r, tn) \<and>
   Ref_Nexts ms tn r [k] = Some (Ref_Next ms tn r k) \<and>
   (Ref_Next ms tn r k = (Some r', tn') \<longrightarrow> ks \<noteq> [] \<longrightarrow>
      Ref_Nexts ms tn r (k # ks) = Ref_Nexts ms tn' r' ks)"
  by (cases ks) auto

lemma Ref_Nexts_panic:
  "fst (Ref_Next ms tn r k) = None \<Longrightarrow> ks \<noteq> [] \<Longrightarrow> Ref_Nexts ms tn r (k # ks) = None"
  by (cases ks; cases "Ref_Next ms tn r k") auto

text \<open>
  C3. \<open>Nexts\<close> with no key returns the reference and with one key returns what \<open>Next\<close>
  returns, \<open>nil\<close> included. With two keys or more, a key before the last that does not
  resolve makes \<open>r.Next(keys[0])\<close> return \<open>nil\<close>, and the call of \<open>Nexts\<close> on that \<open>nil\<close> pointer
  panics: for a reference to a \<open>point\<close> value, the keys \<open>Nope\<close>, \<open>X\<close> do not give \<open>nil\<close>. (The
  type \<open>point\<close> has no methods and the table \<open>typeNodes\<close> is empty.)
\<close>

theorem Ref_Nexts_intermediate_failure_panics:
  "fst (Ref_Next noMethods Map.empty rp (KStr ''Nope'')) = None \<and>
   map_option fst (Ref_Nexts noMethods Map.empty rp [KStr ''Nope'']) = Some None \<and>
   Ref_Nexts noMethods Map.empty rp [KStr ''Nope'', KStr ''X''] = None"
  by code_simp

section \<open>Resolving a key in a collection of nodes\<close>

lemma fold_Add_ByKey:
  "(\<And>s n. ByKey acc s = Some n \<Longrightarrow> KeyString n = s) \<Longrightarrow>
   ByKey (fold Add ns acc) s = Some n \<Longrightarrow> KeyString n = s"
proof (induction ns arbitrary: acc)
  case Nil
  then show ?case by simp
next
  case (Cons a ns)
  have "\<And>s n. ByKey (Add a acc) s = Some n \<Longrightarrow> KeyString n = s"
    using Cons.prems(1) by (auto simp: Add_def split: option.splits if_splits)
  with Cons.IH [of "Add a acc"] Cons.prems(2) show ?case by simp
qed

lemma NewNodes_ByKey: "ByKey (NewNodes ns) s = Some n \<Longrightarrow> KeyString n = s"
  unfolding NewNodes_def
  by (rule fold_Add_ByKey [where acc = "\<lparr>InOrder = [], ByKey = Map.empty\<rparr>"]) auto

text \<open>
  What \<open>ForKey\<close> returns on a collection built by \<open>NewNodes\<close>: the only node, if it is
  dynamic, bound to the key; otherwise the node stored under the string form of the key,
  whose key string is that string, and which is concrete when that string is not empty.
\<close>

lemma Nodes_ForKey_result:
  assumes "Nodes_ForKey (NewNodes ns) k = Some n"
  shows "(\<exists>d. InOrder (NewNodes ns) = [d] \<and> IsDynamic d \<and> n = d\<lparr>Key := k, KeyString := ToString k\<rparr>) \<or>
         (ByKey (NewNodes ns) (ToString k) = Some n \<and> KeyString n = ToString k \<and>
          (ToString k \<noteq> [] \<longrightarrow> \<not> IsDynamic n))"
proof (cases "length (InOrder (NewNodes ns)) = 1 \<and> IsDynamic (InOrder (NewNodes ns) ! 0)")
  case True
  then obtain d where "InOrder (NewNodes ns) = [d]"
    by (cases "InOrder (NewNodes ns)") auto
  with True assms show ?thesis by (auto simp: Nodes_ForKey_def Node_ForKey_def)
next
  case False
  with assms have b: "ByKey (NewNodes ns) (ToString k) = Some n"
    by (auto simp: Nodes_ForKey_def split: if_splits)
  from NewNodes_ByKey [OF b] b show ?thesis by (auto simp: IsDynamic_def)
qed

text \<open>
  C7. In a collection that holds a dynamic node beside another node, the dynamic node is
  stored under the empty key string, and \<open>ForKey\<close> of the empty string returns it as it is:
  a dynamic node, not bound to the key, although \<open>KeyStrings\<close> does not list it.
\<close>

theorem Nodes_ForKey_unbound_dynamic:
  "Nodes_ForKey (NewNodes [mapNode TString TInt, fieldNode [''X''] [TInt] 0]) (KStr [])
     = Some (mapNode TString TInt) \<and>
   IsDynamic (mapNode TString TInt) \<and>
   Key (mapNode TString TInt) \<noteq> KStr [] \<and>
   KeyStrings (NewNodes [mapNode TString TInt, fieldNode [''X''] [TInt] 0]) = [''X'']"
  by code_simp

section \<open>Decoding a boolean\<close>

lemma Concrete_nonptr: "\<not> IsPointing rv \<Longrightarrow> Concrete h rv = Some rv"
  by (simp add: Concrete.simps)

lemma DecodeType_bool_eq:
  "map_option fst (DecodeType lower (NewDecoder parseInt) TBool s h) =
     Some (if lower s \<in> {''true'', ''t'', ''yes'', ''ya'', ''y'', ''si'', ''1'', ''x''}
           then (Some (VBool True), None)
           else if lower s \<in> {''false'', ''f'', ''no'', ''n'', ''0'', ''''}
           then (Some (VBool False), None)
           else (None, Some (ErrParseBool s)))"
  by (simp add: DecodeType_def Decode_def Parse_def Init_def InitType_def InitValue.simps
        reflect_New_def reflect_Elem_def reflect_IsNil_def reflect_Set_def setConcrete_def
        NewDecoder_def Concrete_nonptr load_def store_def nth_append)

text \<open>
  C9. With the default decoder, decoding a string into the type \<open>bool\<close> returns \<open>true\<close> if
  and only if the lowercased input is one of \<open>true\<close>, \<open>t\<close>, \<open>yes\<close>, \<open>ya\<close>, \<open>y\<close>, \<open>si\<close>, \<open>1\<close>, \<open>x\<close>,
  returns \<open>false\<close> if and only if it is one of \<open>false\<close>, \<open>f\<close>, \<open>no\<close>, \<open>n\<close>, \<open>0\<close> and the empty
  string, and returns a parse error if and only if it is neither; this for every
  lowercasing function and on every heap.
\<close>

theorem DecodeType_bool:
  "(map_option fst (DecodeType lower (NewDecoder parseInt) TBool s h)
      = Some (Some (VBool True), None)
      \<longleftrightarrow> lower s \<in> {''true'', ''t'', ''yes'', ''ya'', ''y'', ''si'', ''1'', ''x''}) \<and>
   (map_option fst (DecodeType lower (NewDecoder parseInt) TBool s h)
      = Some (Some (VBool False), None)
      \<longleftrightarrow> lower s \<in> {''false'', ''f'', ''no'', ''n'', ''0'', ''''}) \<and>
   (map_option fst (DecodeType lower (NewDecoder parseInt) TBool s h)
      = Some (None, Some (ErrParseBool s))
      \<longleftrightarrow> lower s \<notin> {''true'', ''t'', ''yes'', ''ya'', ''y'', ''si'', ''1'', ''x''} \<union>
                      {''false'', ''f'', ''no'', ''n'', ''0'', ''''})"
  unfolding DecodeType_bool_eq by auto

section \<open>Heap lemmas and the growth of a slice\<close>




lemma store_length: "store h a sel x = Some h' \<Longrightarrow> length h' = length h"
  by (auto simp: store_def split: if_splits cell.splits option.splits)

lemma load_lt: "load h a sel = Some y \<Longrightarrow> a < length h"
  by (auto simp: load_def split: if_splits)

lemma load_upd_other: "b \<noteq> a \<Longrightarrow> load (h[a := c]) b s = load h b s"
  by (auto simp: load_def)











section \<open>The nodes of arrays and slices\<close>






lemma utoa_nonempty: "utoa n \<noteq> []"
  by (subst utoa.simps) simp

lemma Itoa_nonempty: "Itoa i \<noteq> []"
  by (simp add: Itoa_def utoa_nonempty)






lemma NewNodes_Nil: "NewNodes [] = \<lparr>InOrder = [], ByKey = Map.empty\<rparr>"
  by (simp add: NewNodes_def)



lemma ConcreteType_not_pointer: "\<not> is_pointer (ConcreteType t)"
  by (induction t) auto

lemma ConcreteType_idem: "\<not> is_pointer t \<Longrightarrow> ConcreteType t = t"
  by (cases t) auto

lemma ConcreteType_neq_TPtr: "ConcreteType t \<noteq> TPtr u"
  using ConcreteType_not_pointer [of t] by (cases "ConcreteType t") auto

lemma fold_Add_snoc: "fold Add (ks @ [k]) acc = Add k (fold Add ks acc)"
  by simp

lemma Clone_fold: "Clone (fold Add ks (NewNodes [])) = fold Add ks (NewNodes [])"
proof (induction ks rule: rev_induct)
  case Nil
  then show ?case by (simp add: Clone_def NewNodes_def)
next
  case (snoc k ks)
  let ?r = "fold Add ks (NewNodes [])"
  from snoc have IH: "fold Add (InOrder ?r) \<lparr>InOrder = [], ByKey = Map.empty\<rparr> = ?r"
    by (simp add: Clone_def NewNodes_def)
  show ?case
  proof (cases "ByKey ?r (KeyString k)")
    case None
    then have "InOrder (Add k ?r) = InOrder ?r @ [k]" by (simp add: Add_def)
    then show ?thesis using IH by (simp add: Clone_def NewNodes_def)
  next
    case (Some a)
    then have "Add k ?r = ?r" by (simp add: Add_def)
    then show ?thesis using snoc by simp
  qed
qed

lemma addMethodNodes_none: "no_accessors ms t \<Longrightarrow> addMethodNodes ms t acc = acc"
proof -
  assume a: "no_accessors ms t"
  have "fold (\<lambda>i acc.
             let m = ms t ! i in
             if IsGetter m then Add (getterNode m i) acc
             else if IsSetter m then Add (setterNode m i) acc
             else acc) js acc = acc" if "set js \<subseteq> {0..<length (ms t)}" for js
    using that a
    by (induction js arbitrary: acc) (auto simp: no_accessors_def list_all_length Let_def)
  then show ?thesis by (simp add: addMethodNodes_def)
qed

lemma nodesOf_concrete:
  "\<not> is_pointer c \<Longrightarrow> nodesOf ms c = addMethodNodes ms c (fold Add (kindNodes c) (NewNodes []))"
  by (cases c) (auto simp: nodesOf_def Let_def)

lemma nodesOf_ptr:
  "\<not> is_pointer c \<Longrightarrow> length (ms (TPtr c)) \<noteq> length (ms c) \<Longrightarrow>
   nodesOf ms (TPtr c) = addMethodNodes ms (TPtr c) (Clone (fold Add (kindNodes c) (NewNodes [])))"
  by (simp add: nodesOf_def Let_def ConcreteType_idem)

lemma nodesOf_other:
  "\<not> (rt = TPtr (ConcreteType rt) \<and> length (ms rt) \<noteq> length (ms (ConcreteType rt))) \<Longrightarrow>
   nodesOf ms rt = nodesOf ms (ConcreteType rt)"
  using ConcreteType_not_pointer [of rt]
  by (auto simp: nodesOf_def Let_def ConcreteType_idem ConcreteType_neq_TPtr)

lemma GetTypeNodes_inv:
  assumes "inv_tn ms tn"
  shows "fst (GetTypeNodes ms tn rt) = nodesOf ms rt \<and> inv_tn ms (snd (GetTypeNodes ms tn rt))"
proof (cases "tn rt")
  case (Some n)
  with assms show ?thesis by (simp add: GetTypeNodes_def inv_tn_def)
next
  case None
  let ?c = "ConcreteType rt"
  have np: "\<not> is_pointer ?c" by (rule ConcreteType_not_pointer)
  show ?thesis
  proof (cases "tn ?c")
    case (Some n)
    then have n: "n = nodesOf ms ?c" using assms by (simp add: inv_tn_def)
    have "\<not> (rt = TPtr ?c \<and> length (ms rt) \<noteq> length (ms ?c))"
    proof
      assume a: "rt = TPtr ?c \<and> length (ms rt) \<noteq> length (ms ?c)"
      then have "length (ms (TPtr ?c)) \<noteq> length (ms ?c)" by metis
      with assms np Some have "tn (TPtr ?c) \<noteq> None" unfolding inv_tn_def by blast
      with a None show False by metis
    qed
    from nodesOf_other [OF this] n Some None assms show ?thesis
      by (simp add: GetTypeNodes_def)
  next
    case N2: None
    let ?kind = "fold Add (kindNodes ?c) (NewNodes [])"
    let ?p = "TPtr ?c"
    let ?pn = "addMethodNodes ms ?p (Clone ?kind)"
    let ?n = "addMethodNodes ms ?c ?kind"
    let ?tn1 = "tn(?c \<mapsto> ?n)"
    let ?tn2 = "if length (ms ?p) \<noteq> length (ms ?c) then ?tn1(?p \<mapsto> ?pn) else ?tn1"
    have g: "GetTypeNodes ms tn rt = (case ?tn2 rt of Some x \<Rightarrow> (x, ?tn2) | None \<Rightarrow> (?n, ?tn2))"
      using None N2 by (simp add: GetTypeNodes_def Let_def)
    have cp: "?c \<noteq> ?p" by simp
    have c: "nodesOf ms ?c = ?n" using nodesOf_concrete [OF np] .
    have i2: "inv_tn ms ?tn2"
      unfolding inv_tn_def
    proof (intro conjI allI impI)
      fix t n assume e: "?tn2 t = Some n"
      show "n = nodesOf ms t"
      proof (cases "t = ?c")
        case True
        with e cp c show ?thesis by (auto split: if_splits)
      next
        case False
        show ?thesis
        proof (cases "t = ?p \<and> length (ms ?p) \<noteq> length (ms ?c)")
          case True
          with e nodesOf_ptr [OF np, of ms] show ?thesis by auto
        next
          case F2: False
          with False e have "tn t = Some n" by (auto split: if_splits)
          with assms show ?thesis by (simp add: inv_tn_def)
        qed
      qed
    next
      fix c' assume a: "\<not> is_pointer c' \<and> ?tn2 c' \<noteq> None \<and> length (ms (TPtr c')) \<noteq> length (ms c')"
      show "?tn2 (TPtr c') \<noteq> None"
      proof (cases "c' = ?c")
        case True
        with a show ?thesis by auto
      next
        case False
        with a have "tn c' \<noteq> None" by (auto split: if_splits)
        with a assms have "tn (TPtr c') \<noteq> None" unfolding inv_tn_def by blast
        then show ?thesis using np by (auto split: if_splits)
      qed
    qed
    have r: "fst (GetTypeNodes ms tn rt) = nodesOf ms rt"
    proof (cases "rt = ?c")
      case True
      then show ?thesis using g c cp by (auto split: if_splits)
    next
      case False
      show ?thesis
      proof (cases "rt = ?p \<and> length (ms ?p) \<noteq> length (ms ?c)")
        case True
        then have "?tn2 rt = Some ?pn" by auto
        moreover from True have "nodesOf ms rt = ?pn"
          using nodesOf_ptr [OF np, of ms] by metis
        ultimately show ?thesis using g by simp
      next
        case F2: False
        with False None have "?tn2 rt = None" by (auto split: if_splits)
        moreover have "nodesOf ms rt = nodesOf ms ?c"
          using F2 by (intro nodesOf_other) metis
        ultimately show ?thesis using g c by simp
      qed
    qed
    from r i2 g show ?thesis by (auto split: option.splits)
  qed
qed

lemma built_inv: "built ms tn \<Longrightarrow> inv_tn ms tn"
  by (induction rule: built.induct) (simp_all add: inv_tn_def GetTypeNodes_inv [unfolded inv_tn_def])

lemma GetTypeNodes_built:
  "built ms tn \<Longrightarrow> fst (GetTypeNodes ms tn rt) = nodesOf ms rt"
  using GetTypeNodes_inv [OF built_inv] by blast

lemma GetTypeNodes_registered:
  "GetTypeNodes ms (SetTypeNodes tn rt ns) rt = (NewNodes ns, SetTypeNodes tn rt ns)"
  by (simp add: GetTypeNodes_def SetTypeNodes_def)

lemma nodesOf_kind:
  assumes "ConcreteType rt = c" "no_accessors ms c" "rt = TPtr c \<longrightarrow> no_accessors ms (TPtr c)"
  shows "nodesOf ms rt = fold Add (kindNodes c) (NewNodes [])"
  using assms by (auto simp: nodesOf_def Let_def addMethodNodes_none Clone_fold)












lemma kind_map:
  "fold Add (kindNodes (TMap kt e)) (NewNodes []) = \<lparr>InOrder = [mapNode kt e], ByKey = [[] \<mapsto> mapNode kt e]\<rparr>"
  by (simp add: NewNodes_Nil Add_def mapNode_def)


lemma nodesOf_map:
  assumes "ConcreteType rt = TMap kt e" "no_accessors ms (TMap kt e)"
    "rt = TPtr (TMap kt e) \<longrightarrow> no_accessors ms (TPtr (TMap kt e))"
  shows "Nodes_ForKey (nodesOf ms rt) k = Some (Node_ForKey (mapNode kt e) k)"
  unfolding nodesOf_kind [OF assms] kind_map
  by (simp add: Nodes_ForKey_def Node_ForKey_def IsDynamic_def mapNode_def)

lemma Next_built:
  "built ms tn \<Longrightarrow>
   fst (Next ms tn p k) =
     (case Nodes_ForKey (nodesOf ms (Path_Type p)) k of
        None \<Rightarrow> None
      | Some n \<Rightarrow> Some \<lparr>Path.root = Path.root p, nodes = nodes p @ [n]\<rparr>) \<and>
   built ms (snd (Next ms tn p k))"
proof -
  assume b: "built ms tn"
  obtain N tn' where g: "GetTypeNodes ms tn (Path_Type p) = (N, tn')" by fastforce
  with GetTypeNodes_built [OF b, of "Path_Type p"] have N: "N = nodesOf ms (Path_Type p)" by simp
  from built_call [OF b, of "Path_Type p"] g have "built ms tn'" by simp
  with g N show ?thesis
    by (auto simp: Next_def NextNodes_def NewPath_def split: option.splits)
qed

section \<open>Writing at an index\<close>
















section \<open>Writing a field of a record in a map and reading it back\<close>

lemma mapAt_simps [simp]: "Key (mapAt e s) = KStr s" "Type (mapAt e s) = e" "CopyOnly (mapAt e s)"
  "Get (mapAt e s) = Some MapGet" "Set (mapAt e s) = Some MapSet"
  by (simp_all add: mapAt_def Node_ForKey_def mapNode_def IsDynamic_def)

lemma fieldNode_simps [simp]: "Type (fieldNode fs ts j) = ts ! j" "\<not> CopyOnly (fieldNode fs ts j)"
  "Get (fieldNode fs ts j) = Some (FieldGet j)" "Set (fieldNode fs ts j) = Some (FieldSet j)"
  by (simp_all add: fieldNode_def)

lemma Concrete_ptr:
  "\<not> is_pointer t \<Longrightarrow> Concrete h (Val (TPtr t) (VPtr (Some a))) = Some (Place t a [])"
  by (simp add: Concrete.simps reflect_Elem_def)

lemma Concrete_Place: "\<not> is_pointer t \<Longrightarrow> Concrete h (Place t a sel) = Some (Place t a sel)"
  by (simp add: Concrete.simps)

lemma Concrete_Val: "\<not> is_pointer t \<Longrightarrow> Concrete h (Val t v) = Some (Val t v)"
  by (simp add: Concrete.simps)

lemma map_cell_append: "a < length h \<Longrightarrow> map_cell (h @ cs) a = map_cell h a"
  by (simp add: map_cell_def nth_append)

lemma map_cell_lt: "map_cell h a = Some al \<Longrightarrow> a < length h"
  by (simp add: map_cell_def split: if_splits)

lemma map_cell_load: "map_cell h m = Some al \<Longrightarrow> load h a s = Some v \<Longrightarrow> a \<noteq> m"
  by (auto simp: map_cell_def load_def split: if_splits cell.splits)

lemma map_record_set:
  assumes root: "load h a [] = Some (VMap (Some m))" and mc: "map_cell h m = Some al"
    and ok: "entry_ok al s ts" and j: "j < length ts"
  shows "Path_Set \<lparr>Path.root = TPtr (TMap TString (TStruct nm fs ts)),
                   nodes = [mapAt (TStruct nm fs ts) s, fieldNode fs ts j]\<rparr>
           (Val (TPtr (TMap TString (TStruct nm fs ts))) (VPtr (Some a))) (Val (ts ! j) xv) h
         = Some (None, h[m := CMap (AList.update (VStr s) (VStruct ((entry_fields al s ts)[j := xv])) al)]
                       @ [CVal (VStruct ((entry_fields al s ts)[j := xv]))])"
proof -
  let ?S = "TStruct nm fs ts"
  let ?M = "TMap TString ?S"
  let ?rv = "Val (TPtr ?M) (VPtr (Some a))"
  have a: "a < length h" using root by (rule load_lt)
  have m: "m < length h" using mc by (rule map_cell_lt)
  have am: "a \<noteq> m" using mc root by (rule map_cell_load)
  have get0: "mapGet (mapAt ?S s) ?rv h = Some (case map_of al (VStr s) of None \<Rightarrow> Invalid | Some v \<Rightarrow> Val ?S v)"
    using root mc by (simp add: mapGet_def Concrete_ptr reflect_MapIndex_def)
  show ?thesis
  proof (cases "map_of al (VStr s)")
    case None
    then have ef: "entry_fields al s ts = map zero ts" by (simp add: entry_fields_def)
    show ?thesis
      using None get0 root mc a m am j
      apply (simp add: Path_Set_def vivify_def holder_def InitType_def InitValue.simps
          reflect_New_def reflect_Elem_def Concrete_ptr Concrete_Place fieldSet_def reflect_Field_def
          reflect_Set_def store_def nth_append mapSet_def reflect_SetMapIndex_def load_def
          map_cell_def ef Let_def list_update_append1)
      done
  next
    case (Some sv)
    with ok obtain vs where sv: "sv = VStruct vs" "length vs = length ts"
      by (auto simp: entry_ok_def split: val.splits)
    with Some have ef: "entry_fields al s ts = vs" by (simp add: entry_fields_def)
    show ?thesis
      using Some sv get0 root mc a m am j
      apply (simp add: Path_Set_def vivify_def holder_def InitType_def InitValue.simps
          reflect_New_def reflect_Elem_def Concrete_ptr Concrete_Place fieldSet_def reflect_Field_def
          reflect_Set_def store_def nth_append mapSet_def reflect_SetMapIndex_def load_def
          map_cell_def ef Let_def list_update_append1)
      done
  qed
qed

lemma map_record_get:
  assumes root: "load h a [] = Some (VMap (Some m))" and mc: "map_cell h m = Some al"
    and e: "map_of al (VStr s) = Some (VStruct vs)" and j: "j < length ts" "j < length vs"
  shows "Path_Get \<lparr>Path.root = TPtr (TMap TString (TStruct nm fs ts)),
                   nodes = [mapAt (TStruct nm fs ts) s, fieldNode fs ts j]\<rparr>
           (Val (TPtr (TMap TString (TStruct nm fs ts))) (VPtr (Some a))) h
         = Some (Val (ts ! j) (vs ! j), None)"
  using assms
  by (simp add: Path_Get_loop mapGet_def fieldGet_def Concrete_ptr Concrete_Val reflect_MapIndex_def
        reflect_Field_def)

lemma entry_fields_length: "entry_ok al s ts \<Longrightarrow> length (entry_fields al s ts) = length ts"
  by (auto simp: entry_ok_def entry_fields_def split: option.splits val.splits)

lemma entry_after:
  "entry_ok (AList.update (VStr s) (VStruct vs) al) s ts \<longleftrightarrow> length vs = length ts"
  "entry_fields (AList.update (VStr s) (VStruct vs) al) s ts = vs"
  by (simp_all add: entry_ok_def entry_fields_def update_conv')

lemma update_update_same: "AList.update k v (AList.update k v al) = AList.update k v al"
  by (induction al) auto

lemma map_record_set_get:
  assumes root: "load h a [] = Some (VMap (Some m))" and mc: "map_cell h m = Some al"
    and ok: "entry_ok al s ts" and j: "j < length ts"
  shows "\<exists>h' h''.
     Path_Set \<lparr>Path.root = TPtr (TMap TString (TStruct nm fs ts)),
               nodes = [mapAt (TStruct nm fs ts) s, fieldNode fs ts j]\<rparr>
        (Val (TPtr (TMap TString (TStruct nm fs ts))) (VPtr (Some a))) (Val (ts ! j) xv) h
       = Some (None, h') \<and>
     Path_Get \<lparr>Path.root = TPtr (TMap TString (TStruct nm fs ts)),
               nodes = [mapAt (TStruct nm fs ts) s, fieldNode fs ts j]\<rparr>
        (Val (TPtr (TMap TString (TStruct nm fs ts))) (VPtr (Some a))) h'
       = Some (Val (ts ! j) xv, None) \<and>
     map_cell h' m = Some (AList.update (VStr s) (VStruct ((entry_fields al s ts)[j := xv])) al) \<and>
     Path_Set \<lparr>Path.root = TPtr (TMap TString (TStruct nm fs ts)),
               nodes = [mapAt (TStruct nm fs ts) s, fieldNode fs ts j]\<rparr>
        (Val (TPtr (TMap TString (TStruct nm fs ts))) (VPtr (Some a))) (Val (ts ! j) xv) h'
       = Some (None, h'') \<and>
     take (length h') h'' = h' \<and>
     Path_Get \<lparr>Path.root = TPtr (TMap TString (TStruct nm fs ts)),
               nodes = [mapAt (TStruct nm fs ts) s, fieldNode fs ts j]\<rparr>
        (Val (TPtr (TMap TString (TStruct nm fs ts))) (VPtr (Some a))) h''
       = Some (Val (ts ! j) xv, None)"
proof -
  let ?P = "\<lparr>Path.root = TPtr (TMap TString (TStruct nm fs ts)),
               nodes = [mapAt (TStruct nm fs ts) s, fieldNode fs ts j]\<rparr>"
  let ?rv = "Val (TPtr (TMap TString (TStruct nm fs ts))) (VPtr (Some a))"
  let ?vs = "(entry_fields al s ts)[j := xv]"
  let ?al = "AList.update (VStr s) (VStruct ?vs) al"
  let ?h' = "h[m := CMap ?al] @ [CVal (VStruct ?vs)]"
  have a: "a < length h" using root by (rule load_lt)
  have m: "m < length h" using mc by (rule map_cell_lt)
  have am: "a \<noteq> m" using mc root by (rule map_cell_load)
  have len: "length ?vs = length ts" using ok by (simp add: entry_fields_length)
  have s1: "Path_Set ?P ?rv (Val (ts ! j) xv) h = Some (None, ?h')"
    by (rule map_record_set [OF root mc ok j])
  have root': "load ?h' a [] = Some (VMap (Some m))"
    using root a am by (simp add: load_append_eq load_upd_other)
  have mc': "map_cell ?h' m = Some ?al" using m by (simp add: map_cell_def nth_append)
  have e': "map_of ?al (VStr s) = Some (VStruct ?vs)" by (simp add: update_conv')
  have g1: "Path_Get ?P ?rv ?h' = Some (Val (ts ! j) xv, None)"
    using map_record_get [OF root' mc' e', of j ts nm fs] j len by simp
  have ok': "entry_ok ?al s ts" using len by (simp add: entry_after)
  let ?h'' = "?h'[m := CMap ?al] @ [CVal (VStruct ?vs)]"
  have s2: "Path_Set ?P ?rv (Val (ts ! j) xv) ?h' = Some (None, ?h'')"
    using map_record_set [OF root' mc' ok' j, of nm fs xv]
    by (simp add: entry_after update_update_same)
  have same: "?h'[m := CMap ?al] = ?h'" using m by (simp add: list_update_append1)
  have t: "take (length ?h') ?h'' = ?h'" unfolding same by simp
  have root'': "load ?h'' a [] = Some (VMap (Some m))"
    unfolding same using root' a by (simp add: load_append_eq)
  have mc'': "map_cell ?h'' m = Some ?al" unfolding same using mc' m by (simp add: map_cell_append)
  have g2: "Path_Get ?P ?rv ?h'' = Some (Val (ts ! j) xv, None)"
    using map_record_get [OF root'' mc'' e', of j ts nm fs] j len by simp
  from s1 g1 mc' s2 t g2 show ?thesis by blast
qed

lemma load_field:
  "load h a [] = Some (VStruct rvs) \<Longrightarrow> f < length rvs \<Longrightarrow> load h a [f] = Some (rvs ! f)"
  by (auto simp: load_def split: if_splits cell.splits)

lemma record_map_record_set_nil:
  assumes root: "load h a [] = Some (VStruct rvs)" and f: "f < length rts" "length rvs = length rts"
    and ft: "rts ! f = TMap TString (TStruct nm fs ts)" and nil: "rvs ! f = VMap None"
    and j: "j < length ts"
  shows "Path_Set \<lparr>Path.root = TPtr (TStruct rn rfs rts),
                   nodes = [fieldNode rfs rts f, mapAt (TStruct nm fs ts) s, fieldNode fs ts j]\<rparr>
           (Val (TPtr (TStruct rn rfs rts)) (VPtr (Some a))) (Val (ts ! j) xv) h
         = Some (None, h[a := CVal (VStruct (rvs[f := VMap (Some (length h))]))]
                       @ [CMap [(VStr s, VStruct ((map zero ts)[j := xv]))],
                          CVal (VStruct ((map zero ts)[j := xv]))])"
proof -
  have a: "a < length h" using root by (rule load_lt)
  have ha: "h ! a = CVal (VStruct rvs)" using root by (auto simp: load_def split: if_splits cell.splits)
  show ?thesis
    using a ha f ft nil j
    apply (simp add: Path_Set_def vivify_def holder_def InitType_def InitValue.simps
          reflect_New_def reflect_Elem_def Concrete_ptr Concrete_Place fieldSet_def fieldGet_def
          reflect_Field_def reflect_IsNil_def reflect_MakeMap_def
          reflect_Set_def store_def nth_append mapSet_def mapGet_def reflect_MapIndex_def
          reflect_SetMapIndex_def load_def
          map_cell_def Let_def list_update_append)
    done
qed

lemma record_map_record_set:
  assumes root: "load h a [] = Some (VStruct rvs)" and f: "f < length rts" "length rvs = length rts"
    and ft: "rts ! f = TMap TString (TStruct nm fs ts)" and mp: "rvs ! f = VMap (Some m)"
    and mc: "map_cell h m = Some al" and ok: "entry_ok al s ts"
    and j: "j < length ts"
  shows "Path_Set \<lparr>Path.root = TPtr (TStruct rn rfs rts),
                   nodes = [fieldNode rfs rts f, mapAt (TStruct nm fs ts) s, fieldNode fs ts j]\<rparr>
           (Val (TPtr (TStruct rn rfs rts)) (VPtr (Some a))) (Val (ts ! j) xv) h
         = Some (None, h[m := CMap (AList.update (VStr s) (VStruct ((entry_fields al s ts)[j := xv])) al)]
                       @ [CVal (VStruct ((entry_fields al s ts)[j := xv]))])"
proof -
  have a: "a < length h" using root by (rule load_lt)
  have ha: "h ! a = CVal (VStruct rvs)" using root by (auto simp: load_def split: if_splits cell.splits)
  have m: "m < length h" using mc by (rule map_cell_lt)
  have hm: "h ! m = CMap al" using mc by (auto simp: map_cell_def split: if_splits cell.splits)
  show ?thesis
  proof (cases "map_of al (VStr s)")
    case None
    then have ef: "entry_fields al s ts = map zero ts" by (simp add: entry_fields_def)
    show ?thesis
      using None a ha m hm f ft mp j
      by (simp add: Path_Set_def vivify_def holder_def InitType_def InitValue.simps
          reflect_New_def reflect_Elem_def Concrete_ptr Concrete_Place fieldSet_def fieldGet_def
          reflect_Field_def reflect_IsNil_def
          reflect_Set_def store_def nth_append mapSet_def mapGet_def reflect_MapIndex_def
          reflect_SetMapIndex_def load_def
          map_cell_def Let_def list_update_append ef)
  next
    case (Some sv)
    with ok obtain vs where sv: "sv = VStruct vs" "length vs = length ts"
      by (auto simp: entry_ok_def split: val.splits)
    with Some have ef: "entry_fields al s ts = vs" by (simp add: entry_fields_def)
    show ?thesis
      using Some sv a ha m hm f ft mp j
      by (simp add: Path_Set_def vivify_def holder_def InitType_def InitValue.simps
          reflect_New_def reflect_Elem_def Concrete_ptr Concrete_Place fieldSet_def fieldGet_def
          reflect_Field_def reflect_IsNil_def
          reflect_Set_def store_def nth_append mapSet_def mapGet_def reflect_MapIndex_def
          reflect_SetMapIndex_def load_def
          map_cell_def Let_def list_update_append ef)
  qed
qed

lemma record_map_record_get:
  assumes root: "load h a [] = Some (VStruct rvs)" and f: "f < length rts" "length rvs = length rts"
    and ft: "rts ! f = TMap TString (TStruct nm fs ts)" and mp: "rvs ! f = VMap (Some m)"
    and mc: "map_cell h m = Some al"
    and e: "map_of al (VStr s) = Some (VStruct vs)" and j: "j < length ts" "j < length vs"
  shows "Path_Get \<lparr>Path.root = TPtr (TStruct rn rfs rts),
                   nodes = [fieldNode rfs rts f, mapAt (TStruct nm fs ts) s, fieldNode fs ts j]\<rparr>
           (Val (TPtr (TStruct rn rfs rts)) (VPtr (Some a))) h
         = Some (Val (ts ! j) (vs ! j), None)"
proof -
  have "load h a [f] = Some (VMap (Some m))" using load_field [OF root, of f] f mp by simp
  then show ?thesis
    using assms
    by (simp add: Path_Get_loop mapGet_def fieldGet_def Concrete_ptr Concrete_Val Concrete_Place
        reflect_MapIndex_def reflect_Field_def)
qed

lemma list_update_same_cell: "m < length h \<Longrightarrow> h ! m = c \<Longrightarrow> h[m := c] = h"
  by (simp add: list_update_same_conv)

lemma record_map_record_round:
  assumes root: "load h a [] = Some (VStruct rvs)" and f: "f < length rts" "length rvs = length rts"
    and ft: "rts ! f = TMap TString (TStruct nm fs ts)" and mp: "rvs ! f = VMap (Some m)"
    and mc: "map_cell h m = Some al" and ok: "entry_ok al s ts"
    and j: "j < length ts"
  shows "\<exists>h'. Path_Set (recordMapRecordPath rn rfs rts f nm fs ts s j) (ptr (TStruct rn rfs rts) a)
           (Val (ts ! j) xv) h = Some (None, h') \<and>
     Path_Get (recordMapRecordPath rn rfs rts f nm fs ts s j) (ptr (TStruct rn rfs rts) a) h'
       = Some (Val (ts ! j) xv, None) \<and>
     load h' a [] = Some (VStruct rvs) \<and>
     map_cell h' m = Some (AList.update (VStr s) (VStruct ((entry_fields al s ts)[j := xv])) al) \<and>
     length h' = Suc (length h) \<and>
     (map_of al (VStr s) = Some (VStruct ((entry_fields al s ts)[j := xv])) \<longrightarrow> take (length h) h' = h)"
proof -
  let ?P = "recordMapRecordPath rn rfs rts f nm fs ts s j"
  let ?rv = "ptr (TStruct rn rfs rts) a"
  let ?vs = "(entry_fields al s ts)[j := xv]"
  let ?al = "AList.update (VStr s) (VStruct ?vs) al"
  let ?h' = "h[m := CMap ?al] @ [CVal (VStruct ?vs)]"
  have a: "a < length h" using root by (rule load_lt)
  have m: "m < length h" using mc by (rule map_cell_lt)
  have am: "a \<noteq> m" using mc root by (rule map_cell_load)
  have len: "length ?vs = length ts" using ok by (simp add: entry_fields_length)
  have s1: "Path_Set ?P ?rv (Val (ts ! j) xv) h = Some (None, ?h')"
    unfolding ptr_def recordMapRecordPath_def
    by (rule record_map_record_set [OF root f ft mp mc ok j])
  have root': "load ?h' a [] = Some (VStruct rvs)"
    using root a am by (simp add: load_append_eq load_upd_other)
  have mc': "map_cell ?h' m = Some ?al" using m by (simp add: map_cell_def nth_append)
  have e': "map_of ?al (VStr s) = Some (VStruct ?vs)" by (simp add: update_conv')
  have g1: "Path_Get ?P ?rv ?h' = Some (Val (ts ! j) xv, None)"
    unfolding ptr_def recordMapRecordPath_def
    using record_map_record_get [OF root' f ft mp mc' e', of j rn rfs] j len by simp
  have "take (length h) ?h' = h" if "map_of al (VStr s) = Some (VStruct ?vs)"
  proof -
    have "?al = al" using that by (simp add: map_of_eq_Some_iff update_triv)
    moreover have "h ! m = CMap al" using mc by (auto simp: map_cell_def split: if_splits cell.splits)
    ultimately show ?thesis using m by (simp add: list_update_same_cell)
  qed
  with s1 g1 root' mc' show ?thesis by auto
qed

lemma map_record_roundtrip:
  assumes "load h a [] = Some (VMap (Some m))" "map_cell h m = Some al" "entry_ok al s ts" "j < length ts"
  shows "roundtrip (mapRecordPath nm fs ts s j) (ptr (TMap TString (TStruct nm fs ts)) a) (Val (ts ! j) xv) h"
  using map_record_set_get [OF assms, of nm fs xv]
  unfolding mapRecordPath_def ptr_def by blast

lemma record_map_record_roundtrip:
  assumes root: "load h a [] = Some (VStruct rvs)" and f: "f < length rts" "length rvs = length rts"
    and ft: "rts ! f = TMap TString (TStruct nm fs ts)" and ok: "field_map_ok h (rvs ! f) s ts"
    and j: "j < length ts"
  shows "roundtrip (recordMapRecordPath rn rfs rts f nm fs ts s j) (ptr (TStruct rn rfs rts) a)
           (Val (ts ! j) xv) h"
proof -
  let ?P = "recordMapRecordPath rn rfs rts f nm fs ts s j"
  let ?rv = "ptr (TStruct rn rfs rts) a"
  let ?x = "Val (ts ! j) xv"
  have step: "roundtrip ?P ?rv ?x g"
    if r: "load g a [] = Some (VStruct rvs')" and l: "length rvs' = length rts"
      and mp: "rvs' ! f = VMap (Some m)" and mc: "map_cell g m = Some al" and eo: "entry_ok al s ts"
    for g rvs' m al
  proof -
    let ?vs = "(entry_fields al s ts)[j := xv]"
    let ?al = "AList.update (VStr s) (VStruct ?vs) al"
    from record_map_record_round [OF r f(1) l ft mp mc eo j, of rn rfs xv] obtain h' where
      h': "Path_Set ?P ?rv ?x g = Some (None, h')" "Path_Get ?P ?rv h' = Some (?x, None)"
        "load h' a [] = Some (VStruct rvs')" "map_cell h' m = Some ?al" by blast
    have eo': "entry_ok ?al s ts" using eo by (simp add: entry_after entry_fields_length)
    have same: "map_of ?al (VStr s) = Some (VStruct ((entry_fields ?al s ts)[j := xv]))"
      by (simp add: entry_after update_conv')
    from record_map_record_round [OF h'(3) f(1) l ft mp h'(4) eo' j, of rn rfs xv] same obtain h'' where
      "Path_Set ?P ?rv ?x h' = Some (None, h'')" "Path_Get ?P ?rv h'' = Some (?x, None)"
      "take (length h') h'' = h'" by blast
    with h' show ?thesis by blast
  qed
  show ?thesis
  proof (cases "rvs ! f = VMap None")
    case True
    let ?vs = "(map zero ts)[j := xv]"
    let ?rvs' = "rvs[f := VMap (Some (length h))]"
    let ?h' = "h[a := CVal (VStruct ?rvs')] @ [CMap [(VStr s, VStruct ?vs)], CVal (VStruct ?vs)]"
    have a: "a < length h" using root by (rule load_lt)
    have s1: "Path_Set ?P ?rv ?x h = Some (None, ?h')"
      unfolding ptr_def recordMapRecordPath_def
      by (rule record_map_record_set_nil [OF root f ft True j])
    have r': "load ?h' a [] = Some (VStruct ?rvs')" using a by (simp add: load_def nth_append)
    have mc': "map_cell ?h' (length h) = Some [(VStr s, VStruct ?vs)]"
      by (simp add: map_cell_def nth_append)
    have mp': "?rvs' ! f = VMap (Some (length h))" using f by simp
    have e': "map_of [(VStr s, VStruct ?vs)] (VStr s) = Some (VStruct ?vs)" by simp
    have g1: "Path_Get ?P ?rv ?h' = Some (?x, None)"
      unfolding ptr_def recordMapRecordPath_def
      using record_map_record_get [OF r' f(1) _ ft mp' mc' e', of j rn rfs] f j by simp
    have eo: "entry_ok [(VStr s, VStruct ?vs)] s ts" by (simp add: entry_ok_def)
    have same: "map_of [(VStr s, VStruct ?vs)] (VStr s)
        = Some (VStruct ((entry_fields [(VStr s, VStruct ?vs)] s ts)[j := xv]))"
      by (simp add: entry_fields_def)
    from record_map_record_round [OF r' f(1) _ ft mp' mc' eo j, of rn rfs xv] same f obtain h'' where
      "Path_Set ?P ?rv ?x ?h' = Some (None, h'')" "Path_Get ?P ?rv h'' = Some (?x, None)"
      "take (length ?h') h'' = ?h'" by auto
    with s1 g1 show ?thesis by blast
  next
    case False
    with ok obtain m al where "rvs ! f = VMap (Some m)" "map_cell h m = Some al" "entry_ok al s ts"
      by (auto simp: field_map_ok_def split: val.splits option.splits)
    from step [OF root f(2) this] show ?thesis .
  qed
qed

section \<open>\<open>Path.Set\<close> as a recursion over the nodes\<close>

lemma Path_Set_run:
  assumes "nodes p \<noteq> []" "precheck (nodes p) = None"
  shows "Path_Set p rv x h
     = run (nodes p) 0 (- 1) ((replicate (length (nodes p)) Invalid)[0 := rv]) x h"
proof -
  have l: "length (nodes p) - 1 + 1 = length (nodes p)" using assms(1) by (cases "nodes p") auto
  show ?thesis using assms unfolding Path_Set_def run_def Let_def l by simp
qed

lemma vivify_set:
  "sb \<noteq> - 1 \<Longrightarrow>
   vivify node i sb nx h =
     (case vivify node 0 0 nx h of
        None \<Rightarrow> None
      | Some (Inl e, h1) \<Rightarrow> Some (Inl e, h1)
      | Some (Inr (nx', s), h1) \<Rightarrow> Some (Inr (nx', sb), h1))"
  by (auto simp: vivify_def split: option.splits prod.splits)

lemma forward_step:
  assumes "sb' = (if CopyOnly node \<and> sb = - 1 then int i else sb)" "sb' \<noteq> - 1"
  shows "forward (node # rest) i sb vals h =
     (case step node (vals ! i) h of
        None \<Rightarrow> None
      | Some (Inl e, h1) \<Rightarrow> Some (Inl e, h1)
      | Some (Inr nx, h1) \<Rightarrow> forward rest (i + 1) sb' (vals[i + 1 := nx]) h1)"
proof -
  have "forward (node # rest) i sb vals h =
     (case Get node of
        None \<Rightarrow> None
      | Some g \<Rightarrow>
          (case callGet g node (vals ! i) h of
             None \<Rightarrow> None
           | Some nx \<Rightarrow>
               (case vivify node i sb' nx h of
                  None \<Rightarrow> None
                | Some (Inl e, h1) \<Rightarrow> Some (Inl e, h1)
                | Some (Inr (nx, setBackTo), h1) \<Rightarrow>
                    (case holder nx h1 of
                       None \<Rightarrow> None
                     | Some (nx, h2) \<Rightarrow>
                         (case InitValue h2 nx (Type node) of
                            None \<Rightarrow> None
                          | Some (ok, h3) \<Rightarrow>
                              if \<not> ok then Some (Inl ErrGetInvalid, h3)
                              else forward rest (i + 1) setBackTo (vals[i + 1 := nx]) h3)))))"
    unfolding forward.simps Let_def assms(1) [symmetric] ..
  then show ?thesis
    unfolding step_def vivify_set [OF assms(2)]
    by (simp split: option.splits prod.splits sum.splits)
qed

lemma forward_vals:
  "forward ns i sb vals h = Some (Inr (sb', vals'), h') \<Longrightarrow>
   length vals' = length vals \<and> (\<forall>k \<le> i. vals' ! k = vals ! k)"
proof (induction ns arbitrary: i sb vals h)
  case Nil
  then show ?case by simp
next
  case (Cons n ns)
  from Cons.prems obtain sb1 nx h1 where
    r: "forward ns (i + 1) sb1 (vals[i + 1 := nx]) h1 = Some (Inr (sb', vals'), h')"
    by (auto simp: Let_def split: option.splits prod.splits sum.splits if_splits)
  from Cons.IH [OF r] show ?case by auto
qed

lemma writeback_cong:
  "\<forall>j \<le> k. vs ! j = vs' ! j \<Longrightarrow> writeback ns vs k sb h = writeback ns vs' k sb h"
proof (induction k arbitrary: h)
  case 0
  then show ?case by simp
next
  case (Suc k)
  then have "vs ! k = vs' ! k" "vs ! Suc k = vs' ! Suc k" "\<forall>j \<le> k. vs ! j = vs' ! j" by auto
  with Suc.IH show ?case by (auto simp: Let_def split: option.splits prod.splits)
qed

lemma writeback_done: "int k \<le> sb \<Longrightarrow> writeback ns vs k sb h = Some (None, h)"
  by (cases k) auto

lemma tailSet_Cons:
  "rest \<noteq> [] \<Longrightarrow>
   tailSet (n # rest) cur x h =
     (case step n cur h of
        None \<Rightarrow> None
      | Some (Inl e, h1) \<Rightarrow> Some (Some e, h1)
      | Some (Inr nx, h1) \<Rightarrow>
          (case tailSet rest nx x h1 of
             None \<Rightarrow> None
           | Some (Some e, h2) \<Rightarrow> Some (Some e, h2)
           | Some (None, h2) \<Rightarrow>
               (case Set n of None \<Rightarrow> None | Some st \<Rightarrow> callSet st n cur nx h2)))"
  by (cases rest) auto

lemma run_step:
  assumes "Suc i < length ns" "sb' = (if CopyOnly (ns ! i) \<and> sb = - 1 then int i else sb)"
    "sb' \<noteq> - 1"
  shows "run ns i sb vals x h =
     (case step (ns ! i) (vals ! i) h of
        None \<Rightarrow> None
      | Some (Inl e, h1) \<Rightarrow> Some (Some e, h1)
      | Some (Inr nx, h1) \<Rightarrow> run ns (Suc i) sb' (vals[Suc i := nx]) x h1)"
proof -
  have d: "drop i ns = ns ! i # drop (Suc i) ns" using assms(1) by (simp add: Cons_nth_drop_Suc)
  have ne: "drop (Suc i) ns \<noteq> []" using assms(1) by simp
  have b: "butlast (drop i ns) = ns ! i # butlast (drop (Suc i) ns)" using d ne by simp
  show ?thesis
    unfolding run_def b forward_step [OF assms(2,3)] Let_def
    by (simp split: option.splits prod.splits sum.splits)
qed

lemma run_last:
  assumes "Suc i = length ns" "sb \<noteq> - 1"
  shows "run ns i sb vals x h =
     (case tailSet (drop i ns) (vals ! i) x h of
        None \<Rightarrow> None
      | Some (Some e, h') \<Rightarrow> Some (Some e, h')
      | Some (None, h') \<Rightarrow> writeback ns vals i sb h')"
proof -
  have d: "drop i ns = [ns ! i]" using assms(1)
    by (metis Cons_nth_drop_Suc drop_all lessI order_refl)
  have l: "length ns - 1 = i" using assms(1) by simp
  show ?thesis unfolding run_def d Let_def l using assms(2)
    by (simp split: option.splits prod.splits sum.splits)
qed

lemma run_tailSet:
  assumes "i < length ns" "0 \<le> sb" "sb \<le> int i" "length vals = length ns"
  shows "run ns i sb vals x h =
     (case tailSet (drop i ns) (vals ! i) x h of
        None \<Rightarrow> None
      | Some (Some e, h') \<Rightarrow> Some (Some e, h')
      | Some (None, h') \<Rightarrow> writeback ns vals i sb h')"
  using assms
proof (induction "length ns - i" arbitrary: i vals h)
  case 0
  then show ?case by simp
next
  case (Suc k)
  show ?case
  proof (cases "Suc i = length ns")
    case True
    then show ?thesis using Suc.prems by (intro run_last) auto
  next
    case False
    with Suc.prems have lt: "Suc i < length ns" by simp
    have d: "drop i ns = ns ! i # drop (Suc i) ns" using lt by (simp add: Cons_nth_drop_Suc)
    have ne: "drop (Suc i) ns \<noteq> []" using lt by simp
    have sb': "sb = (if CopyOnly (ns ! i) \<and> sb = - 1 then int i else sb)" "sb \<noteq> - 1"
      using Suc.prems by auto
    have k: "k = length ns - Suc i" using Suc.hyps(2) by simp
    have IH: "run ns (Suc i) sb (vals[Suc i := nx]) x h1 =
       (case tailSet (drop (Suc i) ns) nx x h1 of
          None \<Rightarrow> None
        | Some (Some e, h') \<Rightarrow> Some (Some e, h')
        | Some (None, h') \<Rightarrow> writeback ns (vals[Suc i := nx]) (Suc i) sb h')" for nx h1
      using Suc.hyps(1) [OF k, of "vals[Suc i := nx]" h1] lt Suc.prems by simp
    have wb: "writeback ns (vals[Suc i := nx]) (Suc i) sb h' =
       (case Set (ns ! i) of
          None \<Rightarrow> None
        | Some st \<Rightarrow>
            (case callSet st (ns ! i) (vals ! i) nx h' of
               None \<Rightarrow> None
             | Some (Some e, h1) \<Rightarrow> Some (Some e, h1)
             | Some (None, h1) \<Rightarrow> writeback ns vals i sb h1))" for nx h'
    proof -
      have c: "writeback ns (vals[Suc i := nx]) i sb g = writeback ns vals i sb g" for g
        by (rule writeback_cong) simp
      show ?thesis using Suc.prems lt
        by (simp add: Let_def c split: option.splits prod.splits)
    qed
    show ?thesis
      unfolding run_step [OF lt sb'] d tailSet_Cons [OF ne] IH wb
      by (simp split: option.splits prod.splits sum.splits)
  qed
qed

lemma Path_Set_tailSet:
  assumes ne: "nodes p \<noteq> []" and pc: "precheck (nodes p) = None" and co: "CopyOnly (hd (nodes p))"
  shows "Path_Set p rv x h = tailSet (nodes p) rv x h"
proof -
  let ?ns = "nodes p"
  let ?vals = "(replicate (length ?ns) Invalid)[0 := rv]"
  have v0: "?vals ! 0 = rv" using ne by simp
  have hd: "hd ?ns = ?ns ! 0" using ne by (simp add: hd_conv_nth)
  show ?thesis
  proof (cases "length ?ns = 1")
    case True
    then obtain n where n: "?ns = [n]" by (cases ?ns) auto
    from pc n obtain st where "Set n = Some st" by (auto split: if_splits)
    then show ?thesis
      unfolding Path_Set_run [OF ne pc] using n
      by (simp add: run_def split: option.splits prod.splits)
  next
    case False
    with ne have lt: "Suc 0 < length ?ns" by (cases ?ns) auto
    have sb': "(0::int) = (if CopyOnly (?ns ! 0) \<and> (- 1::int) = - 1 then int 0 else - 1)" "(0::int) \<noteq> - 1"
      using co hd by auto
    have d: "?ns = ?ns ! 0 # drop (Suc 0) ?ns" using lt
      by (metis Cons_nth_drop_Suc drop0 Suc_lessD)
    have ne1: "drop (Suc 0) ?ns \<noteq> []" using lt by simp
    have r: "run ?ns (Suc 0) 0 (?vals[Suc 0 := nx]) x h1 =
       (case tailSet (drop (Suc 0) ?ns) nx x h1 of
          None \<Rightarrow> None
        | Some (Some e, h') \<Rightarrow> Some (Some e, h')
        | Some (None, h') \<Rightarrow> writeback ?ns (?vals[Suc 0 := nx]) (Suc 0) 0 h')" for nx h1
      using run_tailSet [of "Suc 0" ?ns 0 "?vals[Suc 0 := nx]" x h1] lt by simp
    have wb: "writeback ?ns (?vals[Suc 0 := nx]) (Suc 0) 0 h' =
       (case Set (?ns ! 0) of None \<Rightarrow> None | Some st \<Rightarrow> callSet st (?ns ! 0) rv nx h')" for nx h'
      using lt v0 by (auto simp: Let_def split: option.splits prod.splits)
    have "tailSet ?ns rv x h = tailSet (?ns ! 0 # drop (Suc 0) ?ns) rv x h" using d by simp
    also have "\<dots> = run ?ns 0 (- 1) ?vals x h"
      unfolding run_step [OF lt sb'] tailSet_Cons [OF ne1] r wb v0
      by (simp split: option.splits prod.splits sum.splits)
    finally show ?thesis unfolding Path_Set_run [OF ne pc] by simp
  qed
qed

section \<open>Writing through nested maps\<close>

lemma chain_cell: "chain h ob ks seen \<Longrightarrow> \<exists>al. map_cell h ob = Some al \<and> ob \<notin> set seen"
  by (cases ks) (auto split: option.splits)

lemma chain_append: "chain h ob ks seen \<Longrightarrow> chain (h @ ext) ob ks seen"
proof (induction ks arbitrary: ob seen)
  case Nil
  then show ?case by (auto simp: map_cell_def nth_append split: if_splits)
next
  case (Cons k ks)
  from chain_cell [OF Cons.prems] obtain al where al: "map_cell h ob = Some al" by blast
  then have "map_cell (h @ ext) ob = Some al" by (auto simp: map_cell_def nth_append split: if_splits)
  with Cons al show ?case by (auto split: option.splits val.splits)
qed

lemma chain_fresh:
  "map_cell h ob = Some [] \<Longrightarrow> ob \<notin> set seen \<Longrightarrow> chain h ob ks seen"
  by (cases ks) auto

lemma cur_ok_Concrete: "cur_ok cur (TMap kt et) c \<Longrightarrow> Concrete g cur = Some (Place (TMap kt et) c [])"
  by (auto simp: cur_ok_def Concrete.simps reflect_Elem_def)

lemma step_map:
  assumes cur: "cur_ok cur (TMap TString (TMap TString T')) c"
    and ld: "load h c [] = Some (VMap (Some ob))"
    and ch: "chain h ob (k # ks) seen"
    and sn: "\<forall>s\<in>set seen. s < length h"
  shows "\<exists>ext ob1. step (mapAt (TMap TString T') k) cur h
            = Some (Inr (Place (TMap TString T') (length h) []), h @ ext) \<and>
          load (h @ ext) (length h) [] = Some (VMap (Some ob1)) \<and>
          chain (h @ ext) ob1 ks (ob # seen) \<and>
          (\<forall>al ob'. map_cell h ob = Some al \<and> map_of al (VStr k) = Some (VMap (Some ob')) \<longrightarrow>
             ob1 = ob' \<and> ext = [CVal (VMap (Some ob'))])"
proof -
  let ?T = "TMap TString T'"
  let ?L = "length h"
  from ch obtain al where al: "map_cell h ob = Some al" and os: "ob \<notin> set seen"
    by (auto split: option.splits)
  have ob: "ob < ?L" using al by (auto simp: map_cell_def split: if_splits)
  have c: "c < ?L" using ld by (auto simp: load_def split: if_splits)
  have get: "mapGet (mapAt ?T k) cur h
      = Some (case map_of al (VStr k) of None \<Rightarrow> Invalid | Some v \<Rightarrow> Val ?T v)"
    using ld al by (simp add: mapGet_def cur_ok_Concrete [OF cur] reflect_MapIndex_def)
  have fresh: "chain (h @ [CVal (VMap (Some (Suc ?L))), CMap []]) (Suc ?L) ks (ob # seen)"
    using ob sn by (intro chain_fresh) (auto simp: map_cell_def nth_append)
  show ?thesis
  proof (cases "map_of al (VStr k)")
    case None
    have "step (mapAt ?T k) cur h
        = Some (Inr (Place ?T ?L []), h @ [CVal (VMap (Some (Suc ?L))), CMap []])"
      using None get
      by (simp add: step_def vivify_def holder_def InitType_def InitValue.simps reflect_New_def
          reflect_Elem_def reflect_IsNil_def reflect_MakeMap_def reflect_Set_def load_def store_def
          nth_append)
    moreover have "load (h @ [CVal (VMap (Some (Suc ?L))), CMap []]) ?L [] = Some (VMap (Some (Suc ?L)))"
      by (simp add: load_def nth_append)
    ultimately show ?thesis using fresh al None ob by (intro exI [of _ "[CVal (VMap (Some (Suc ?L))), CMap []]"] exI [of _ "Suc ?L"]) auto
  next
    case (Some v)
    show ?thesis
    proof (cases v)
      case (VMap r)
      show ?thesis
      proof (cases r)
        case None
        have "step (mapAt ?T k) cur h
            = Some (Inr (Place ?T ?L []), h @ [CVal (VMap (Some (Suc ?L))), CMap []])"
          using None VMap Some get
          by (simp add: step_def vivify_def holder_def InitType_def InitValue.simps reflect_New_def
              reflect_Elem_def reflect_IsNil_def reflect_MakeMap_def reflect_Set_def load_def store_def
              nth_append)
        moreover have "load (h @ [CVal (VMap (Some (Suc ?L))), CMap []]) ?L [] = Some (VMap (Some (Suc ?L)))"
          by (simp add: load_def nth_append)
        ultimately show ?thesis using fresh al None VMap Some
          by (intro exI [of _ "[CVal (VMap (Some (Suc ?L))), CMap []]"] exI [of _ "Suc ?L"]) auto
      next
        case (Some ob')
        have "step (mapAt ?T k) cur h = Some (Inr (Place ?T ?L []), h @ [CVal (VMap (Some ob'))])"
          using Some VMap \<open>map_of al (VStr k) = Some v\<close> get
          by (simp add: step_def vivify_def holder_def InitType_def InitValue.simps reflect_New_def
              reflect_Elem_def reflect_IsNil_def reflect_MakeMap_def reflect_Set_def load_def store_def
              nth_append)
        moreover have "load (h @ [CVal (VMap (Some ob'))]) ?L [] = Some (VMap (Some ob'))"
          by (simp add: load_def nth_append)
        moreover have "chain (h @ [CVal (VMap (Some ob'))]) ob' ks (ob # seen)"
          using ch al Some VMap \<open>map_of al (VStr k) = Some v\<close> by (intro chain_append) simp
        ultimately show ?thesis using al Some VMap \<open>map_of al (VStr k) = Some v\<close>
          by (intro exI [of _ "[CVal (VMap (Some ob'))]"] exI [of _ ob']) auto
      qed
    qed (use ch al Some in \<open>auto split: val.splits\<close>)
  qed
qed

lemma settled_Cons:
  "ks \<noteq> [] \<Longrightarrow> settled h ob (k # ks) xv seen =
     (ob \<notin> set seen \<and>
      (case map_cell h ob of
         None \<Rightarrow> False
       | Some al \<Rightarrow>
           (case map_of al (VStr k) of
              Some (VMap (Some ob')) \<Rightarrow> settled h ob' ks xv (ob # seen)
            | _ \<Rightarrow> False)))"
  by (cases ks) auto

lemma settled_chain: "settled h ob ks xv seen \<Longrightarrow> chain h ob (butlast ks) seen"
proof (induction ks arbitrary: ob seen)
  case Nil
  then show ?case by simp
next
  case (Cons k ks)
  show ?case
  proof (cases "ks = []")
    case True
    with Cons.prems show ?thesis by (auto split: option.splits)
  next
    case False
    from Cons.prems obtain al ob' where al: "map_cell h ob = Some al" "ob \<notin> set seen"
      "map_of al (VStr k) = Some (VMap (Some ob'))" "settled h ob' ks xv (ob # seen)"
      unfolding settled_Cons [OF False]
      by (auto split: option.splits val.splits)
    from Cons.IH [OF al(4)] al False show ?thesis by simp
  qed
qed

lemma update_present: "map_of al k = Some v \<Longrightarrow> AList.update k v al = al"
  by (induction al) (auto split: if_splits)

lemma map_cell_nth: "map_cell h a = Some al \<longleftrightarrow> a < length h \<and> h ! a = CMap al"
  by (auto simp: map_cell_def split: cell.splits)

lemma load_nth: "load h a [] = Some v \<longleftrightarrow> a < length h \<and> h ! a = CVal v"
  by (auto simp: load_def split: cell.splits)

lemma mapSet_map:
  assumes cur: "cur_ok cur (TMap TString T) c"
    and ld: "load h c [] = Some (VMap (Some ob))" and al: "map_cell h ob = Some al"
    and x: "rtype x = Some T" "valof h x = Some v"
  shows "mapSet (mapAt T k) cur x h = Some (None, h[ob := CMap (AList.update (VStr k) v al)])"
proof -
  from x have "x \<noteq> Invalid" by auto
  then show ?thesis
    using ld al x
    by (simp add: mapSet_def cur_ok_Concrete [OF cur] reflect_SetMapIndex_def)
qed

lemma mapGet_map:
  assumes "rtype cc = Some (TMap TString T)" "valof g cc = Some (VMap (Some ob))"
    "map_cell g ob = Some al"
  shows "mapGet (mapAt T k) cc g
     = Some (case map_of al (VStr k) of None \<Rightarrow> Invalid | Some v \<Rightarrow> Val T v)"
proof -
  from assms(1) have "Concrete g cc = Some cc" by (cases cc) (auto simp: Concrete.simps)
  then show ?thesis using assms by (simp add: mapGet_def reflect_MapIndex_def)
qed

lemma settled_append: "settled h ob ks xv seen \<Longrightarrow> settled (h @ ext) ob ks xv seen"
proof (induction ks arbitrary: ob seen)
  case Nil
  then show ?case by simp
next
  case (Cons k ks)
  show ?case
  proof (cases "ks = []")
    case True
    with Cons.prems show ?thesis
      by (auto simp: map_cell_def nth_append split: if_splits option.splits cell.splits)
  next
    case False
    from Cons.prems obtain al ob' where al: "map_cell h ob = Some al" "ob \<notin> set seen"
      "map_of al (VStr k) = Some (VMap (Some ob'))" "settled h ob' ks xv (ob # seen)"
      unfolding settled_Cons [OF False]
      by (auto split: option.splits val.splits)
    from al(1) have "map_cell (h @ ext) ob = Some al"
      by (auto simp: map_cell_def nth_append split: if_splits)
    with Cons.IH [OF al(4)] al show ?thesis unfolding settled_Cons [OF False] by simp
  qed
qed

lemma mapNodes_ne: "ks \<noteq> [] \<Longrightarrow> mapNodes V ks \<noteq> []"
  by (cases ks) auto

lemma tail_maps:
  assumes "ks \<noteq> []" "cur_ok cur (mapT (length ks) V) c" "load h c [] = Some (VMap (Some ob))"
    "chain h ob (butlast ks) seen" "\<forall>s\<in>set seen. s < length h"
  shows "\<exists>h'. tailSet (mapNodes V ks) cur (Val V xv) h = Some (None, h') \<and>
      length h \<le> length h' \<and>
      (\<forall>a v. a < length h \<and> h ! a = CVal v \<longrightarrow> h' ! a = CVal v) \<and>
      (\<forall>a\<in>set seen. h' ! a = h ! a) \<and>
      (settled h ob ks xv seen \<longrightarrow> take (length h) h' = h) \<and>
      (\<forall>g. agree g h' seen \<longrightarrow> settled g ob ks xv seen \<and>
           (\<forall>cc. rtype cc = Some (mapT (length ks) V) \<and> valof g cc = Some (VMap (Some ob)) \<longrightarrow>
              Get_loop (mapNodes V ks) cc g = Some (Val V xv, None)))"
  using assms
proof (induction ks arbitrary: cur c h ob seen)
  case Nil
  then show ?case by simp
next
  case (Cons k ks)
  from Cons.prems(3) have c: "c < length h" "h ! c = CVal (VMap (Some ob))"
    by (simp_all add: load_nth)
  show ?case
  proof (cases "ks = []")
    case True
    from Cons.prems(4) True obtain al where al: "map_cell h ob = Some al" and os: "ob \<notin> set seen"
      by auto
    then have ob: "ob < length h" "h ! ob = CMap al" by (simp_all add: map_cell_nth)
    let ?h' = "h[ob := CMap (AList.update (VStr k) xv al)]"
    have cur: "cur_ok cur (TMap TString V) c" using Cons.prems(2) True by simp
    have s: "tailSet (mapNodes V (k # ks)) cur (Val V xv) h = Some (None, ?h')"
      using True mapSet_map [OF cur Cons.prems(3) al, of "Val V xv" xv k] by simp
    have f1: "\<forall>a v. a < length h \<and> h ! a = CVal v \<longrightarrow> ?h' ! a = CVal v"
      using ob by (auto simp: nth_list_update)
    have f2: "\<forall>a\<in>set seen. ?h' ! a = h ! a"
    proof
      fix a assume "a \<in> set seen"
      with os have "ob \<noteq> a" by auto
      then show "?h' ! a = h ! a" by simp
    qed
    have f3: "settled h ob (k # ks) xv seen \<longrightarrow> take (length h) ?h' = h"
      using True al ob by (auto simp: update_present list_update_same_conv)
    have f4: "settled g ob (k # ks) xv seen \<and>
           (\<forall>cc. rtype cc = Some (mapT (length (k # ks)) V) \<and> valof g cc = Some (VMap (Some ob)) \<longrightarrow>
              Get_loop (mapNodes V (k # ks)) cc g = Some (Val V xv, None))" if ag: "agree g ?h' seen" for g
    proof -
      from ag ob os have "g ! ob = CMap (AList.update (VStr k) xv al)" "ob < length g"
        by (auto simp: agree_def)
      then have mc: "map_cell g ob = Some (AList.update (VStr k) xv al)" by (simp add: map_cell_nth)
      then have "settled g ob (k # ks) xv seen" using True os by (simp add: update_conv')
      moreover have "Get_loop (mapNodes V (k # ks)) cc g = Some (Val V xv, None)"
        if "rtype cc = Some (mapT (length (k # ks)) V)" "valof g cc = Some (VMap (Some ob))" for cc
        using that True mapGet_map [OF _ that(2) mc, of V k] by (simp add: update_conv')
      ultimately show ?thesis by blast
    qed
    from s f1 f2 f3 f4 show ?thesis by (intro exI [of _ ?h']) simp
  next
    case False
    then obtain n' where n': "length ks = Suc n'" by (cases ks) auto
    let ?T' = "mapT n' V"
    let ?T = "TMap TString ?T'"
    let ?L = "length h"
    have T: "mapT (length ks) V = ?T" using n' by simp
    have cur: "cur_ok cur (TMap TString ?T) c" using Cons.prems(2) n' by simp
    have ch: "chain h ob (k # butlast ks) seen" using Cons.prems(4) False by simp
    then obtain al where al: "map_cell h ob = Some al" and os: "ob \<notin> set seen"
      by (auto split: option.splits)
    then have ob: "ob < length h" "h ! ob = CMap al" by (simp_all add: map_cell_nth)
    from step_map [OF cur Cons.prems(3) ch Cons.prems(5)] obtain ext ob1 where
      st: "step (mapAt ?T k) cur h = Some (Inr (Place ?T ?L []), h @ ext)" and
      l1: "load (h @ ext) ?L [] = Some (VMap (Some ob1))" and
      ch1: "chain (h @ ext) ob1 (butlast ks) (ob # seen)" and
      ex: "\<forall>al ob'. map_cell h ob = Some al \<and> map_of al (VStr k) = Some (VMap (Some ob')) \<longrightarrow>
             ob1 = ob' \<and> ext = [CVal (VMap (Some ob'))]"
      by blast
    let ?h1 = "h @ ext"
    have L1: "?L < length ?h1" "?h1 ! ?L = CVal (VMap (Some ob1))" using l1 by (simp_all add: load_nth)
    have cur1: "cur_ok (Place ?T ?L []) (mapT (length ks) V) ?L" by (simp add: cur_ok_def T)
    have sn1: "\<forall>s\<in>set (ob # seen). s < length ?h1" using Cons.prems(5) ob by auto
    from Cons.IH [OF False cur1 l1 ch1 sn1] obtain h2 where
      t2: "tailSet (mapNodes V ks) (Place ?T ?L []) (Val V xv) ?h1 = Some (None, h2)" and
      len2: "length ?h1 \<le> length h2" and
      fr2: "\<forall>a v. a < length ?h1 \<and> ?h1 ! a = CVal v \<longrightarrow> h2 ! a = CVal v" and
      sn2: "\<forall>a\<in>set (ob # seen). h2 ! a = ?h1 ! a" and
      se2: "settled ?h1 ob1 ks xv (ob # seen) \<longrightarrow> take (length ?h1) h2 = ?h1" and
      ag2: "\<forall>g. agree g h2 (ob # seen) \<longrightarrow> settled g ob1 ks xv (ob # seen) \<and>
           (\<forall>cc. rtype cc = Some (mapT (length ks) V) \<and> valof g cc = Some (VMap (Some ob1)) \<longrightarrow>
              Get_loop (mapNodes V ks) cc g = Some (Val V xv, None))"
      by blast
    have c2: "load h2 c [] = Some (VMap (Some ob))"
      using fr2 c len2 by (auto simp: load_nth nth_append)
    have ob2: "map_cell h2 ob = Some al" using sn2 ob len2 by (auto simp: map_cell_nth nth_append)
    have x2: "valof h2 (Place ?T ?L []) = Some (VMap (Some ob1))"
    proof -
      from fr2 L1 have "h2 ! ?L = CVal (VMap (Some ob1))" by blast
      moreover from L1 len2 have "?L < length h2" by linarith
      ultimately show ?thesis by (simp add: load_nth)
    qed
    let ?h3 = "h2[ob := CMap (AList.update (VStr k) (VMap (Some ob1)) al)]"
    have wb: "mapSet (mapAt ?T k) cur (Place ?T ?L []) h2 = Some (None, ?h3)"
      by (rule mapSet_map [OF cur c2 ob2 _ x2]) simp
    have s: "tailSet (mapNodes V (k # ks)) cur (Val V xv) h = Some (None, ?h3)"
      using st t2 wb by (simp add: tailSet_Cons [OF mapNodes_ne [OF False]] T)
    have f0: "length h \<le> length ?h3" using len2 by simp
    have f1: "\<forall>a v. a < length h \<and> h ! a = CVal v \<longrightarrow> ?h3 ! a = CVal v"
    proof (intro allI impI)
      fix a v assume a: "a < length h \<and> h ! a = CVal v"
      then have "?h1 ! a = CVal v" "a < length ?h1" by (auto simp: nth_append)
      with fr2 have "h2 ! a = CVal v" by blast
      moreover have "a \<noteq> ob" using a ob by auto
      ultimately show "?h3 ! a = CVal v" by simp
    qed
    have f2: "\<forall>a\<in>set seen. ?h3 ! a = h ! a"
    proof
      fix a assume a: "a \<in> set seen"
      then have "a \<noteq> ob" "a < length h" using os Cons.prems(5) by auto
      moreover have "h2 ! a = ?h1 ! a" using sn2 a by simp
      ultimately show "?h3 ! a = h ! a" by (simp add: nth_append)
    qed
    have f3: "settled h ob (k # ks) xv seen \<longrightarrow> take (length h) ?h3 = h"
    proof
      assume "settled h ob (k # ks) xv seen"
      then obtain ob' where e: "map_of al (VStr k) = Some (VMap (Some ob'))"
        and s': "settled h ob' ks xv (ob # seen)"
        unfolding settled_Cons [OF False] using al by (auto split: option.splits val.splits)
      from ex al e have o1: "ob1 = ob'" by blast
      from settled_append [OF s'] o1 se2 have t: "take (length ?h1) h2 = ?h1" by simp
      have "AList.update (VStr k) (VMap (Some ob1)) al = al" using e o1 by (simp add: update_present)
      moreover have "h2 ! ob = CMap al" using ob2 by (simp add: map_cell_nth)
      ultimately have "?h3 = h2" by (metis list_update_id)
      moreover have "take (length h) h2 = take (length h) (take (length ?h1) h2)" by simp
      ultimately show "take (length h) ?h3 = h" unfolding t by simp
    qed
    have f4: "settled g ob (k # ks) xv seen \<and>
           (\<forall>cc. rtype cc = Some (mapT (length (k # ks)) V) \<and> valof g cc = Some (VMap (Some ob)) \<longrightarrow>
              Get_loop (mapNodes V (k # ks)) cc g = Some (Val V xv, None))" if ag: "agree g ?h3 seen" for g
    proof -
      have ob3: "ob < length ?h3" using ob len2 by simp
      from ag ob3 os have "g ! ob = CMap (AList.update (VStr k) (VMap (Some ob1)) al)" "ob < length g"
        using ob2 by (auto simp: agree_def map_cell_nth)
      then have mc: "map_cell g ob = Some (AList.update (VStr k) (VMap (Some ob1)) al)"
        by (simp add: map_cell_nth)
      have "agree g h2 (ob # seen)" using ag by (auto simp: agree_def)
      with ag2 have i1: "settled g ob1 ks xv (ob # seen)" and
        i2: "\<And>cc. rtype cc = Some (mapT (length ks) V) \<Longrightarrow> valof g cc = Some (VMap (Some ob1)) \<Longrightarrow>
              Get_loop (mapNodes V ks) cc g = Some (Val V xv, None)"
        by blast+
      have "settled g ob (k # ks) xv seen"
        unfolding settled_Cons [OF False] using mc os i1 by (simp add: update_conv')
      moreover have "Get_loop (mapNodes V (k # ks)) cc g = Some (Val V xv, None)"
        if "rtype cc = Some (mapT (length (k # ks)) V)" "valof g cc = Some (VMap (Some ob))" for cc
      proof -
        have "mapGet (mapAt ?T k) cc g = Some (Val ?T (VMap (Some ob1)))"
          using mapGet_map [OF _ that(2) mc, of ?T k] that(1) n' by (simp add: update_conv')
        moreover have "Get_loop (mapNodes V ks) (Val ?T (VMap (Some ob1))) g = Some (Val V xv, None)"
          by (rule i2) (simp_all add: T)
        ultimately show ?thesis by (simp add: T)
      qed
      ultimately show ?thesis by blast
    qed
    from s f0 f1 f2 f3 f4 show ?thesis by (intro exI [of _ ?h3]) simp
  qed
qed

lemma precheck_mapNodes: "precheck (mapNodes V ks) = None"
  by (induction ks) auto

lemma hd_mapNodes: "ks \<noteq> [] \<Longrightarrow> CopyOnly (hd (mapNodes V ks))"
  by (cases ks) auto

lemma Get_loop_ptr:
  "ks \<noteq> [] \<Longrightarrow> Get_loop (mapNodes V ks) (ptr (mapT (length ks) V) a) g
     = Get_loop (mapNodes V ks) (Place (mapT (length ks) V) a []) g"
  by (cases ks) (auto simp: mapGet_def Concrete_ptr Concrete_Place ptr_def)

lemma nested_maps_roundtrip:
  assumes ne: "ks \<noteq> []" and ld: "load h a [] = Some (VMap (Some ob))"
    and ch: "chain h ob (butlast ks) []"
  shows "roundtrip (mapsPath V ks) (ptr (mapT (length ks) V) a) (Val V xv) h"
proof -
  let ?M = "mapT (length ks) V"
  let ?p = "mapsPath V ks" and ?rv = "ptr ?M a"
  have cur: "cur_ok ?rv ?M a" by (simp add: cur_ok_def ptr_def)
  have ps: "Path_Set ?p ?rv x g = tailSet (mapNodes V ks) ?rv x g" for x g
    using Path_Set_tailSet [of ?p ?rv x g] ne
    by (simp add: mapsPath_def precheck_mapNodes hd_mapNodes mapNodes_ne)
  have pg: "Path_Get ?p ?rv g = Get_loop (mapNodes V ks) (Place ?M a []) g" for g
    by (simp add: Path_Get_loop mapsPath_def Get_loop_ptr [OF ne])
  have a: "a < length h" "h ! a = CVal (VMap (Some ob))" using ld by (simp_all add: load_nth)
  from tail_maps [OF ne cur ld ch, where xv = xv] obtain h' where
    s1: "tailSet (mapNodes V ks) ?rv (Val V xv) h = Some (None, h')" and
    len1: "length h \<le> length h'" and
    fr1: "\<forall>a v. a < length h \<and> h ! a = CVal v \<longrightarrow> h' ! a = CVal v" and
    ag1: "\<forall>g. agree g h' [] \<longrightarrow> settled g ob ks xv [] \<and>
           (\<forall>cc. rtype cc = Some ?M \<and> valof g cc = Some (VMap (Some ob)) \<longrightarrow>
              Get_loop (mapNodes V ks) cc g = Some (Val V xv, None))"
    by auto
  have ld1: "load h' a [] = Some (VMap (Some ob))" using fr1 a len1 by (auto simp: load_nth)
  have "agree h' h' []" by (simp add: agree_def)
  with ag1 have st1: "settled h' ob ks xv []" and
    g1: "Get_loop (mapNodes V ks) (Place ?M a []) h' = Some (Val V xv, None)"
    using ld1 by auto
  from tail_maps [OF ne cur ld1 settled_chain [OF st1], where xv = xv] st1 obtain h'' where
    s2: "tailSet (mapNodes V ks) ?rv (Val V xv) h' = Some (None, h'')" and
    len2: "length h' \<le> length h''" and
    fr2: "\<forall>a v. a < length h' \<and> h' ! a = CVal v \<longrightarrow> h'' ! a = CVal v" and
    tk: "take (length h') h'' = h'" and
    ag2: "\<forall>g. agree g h'' [] \<longrightarrow> settled g ob ks xv [] \<and>
           (\<forall>cc. rtype cc = Some ?M \<and> valof g cc = Some (VMap (Some ob)) \<longrightarrow>
              Get_loop (mapNodes V ks) cc g = Some (Val V xv, None))"
    by auto
  have ld2: "load h'' a [] = Some (VMap (Some ob))" using fr2 ld1 len2 by (auto simp: load_nth)
  have "agree h'' h'' []" by (simp add: agree_def)
  with ag2 have g2: "Get_loop (mapNodes V ks) (Place ?M a []) h'' = Some (Val V xv, None)"
    using ld2 by auto
  from s1 g1 s2 g2 tk show ?thesis unfolding ps pg by blast
qed

lemma mapT_shift: "mapT n (TMap TString V) = TMap TString (mapT n V)"
  by (induction n) auto

lemma mapNodes_snoc: "mapNodes V (ks @ [k]) = mapNodes (TMap TString V) ks @ [mapAt V k]"
  by (induction ks) (auto simp: mapT_shift)

lemma last_mapNodes: "ks \<noteq> [] \<Longrightarrow> Type (last (mapNodes V ks)) = V"
proof (induction ks)
  case Nil
  then show ?case by simp
next
  case (Cons k ks)
  then show ?case by (cases "ks = []") (simp_all add: mapNodes_ne)
qed

lemma Next_mapsPath:
  assumes "built ms tn" "no_accessors ms (TMap TString V)" "no_accessors ms (TPtr (TMap TString V))"
  shows "NewPath (TPtr V) = mapsPath V [] \<and>
   fst (Next ms tn (mapsPath (TMap TString V) ks) (KStr k)) = Some (mapsPath V (ks @ [k]))"
proof -
  have "ConcreteType (Path_Type (mapsPath (TMap TString V) ks)) = TMap TString V"
    by (cases "ks = []")
      (auto simp: Path_Type_def IsEmpty_def mapsPath_def mapNodes_ne last_mapNodes)
  from nodesOf_map [OF this assms(2)] assms(3) show ?thesis
    by (simp add: Next_built [OF assms(1)] NewPath_def mapsPath_def mapNodes_snoc mapT_shift mapAt_def)
qed

section \<open>Writing a path and reading it back\<close>

text \<open>
  C1. A \<open>Set\<close> that returns no error is not always read back by \<open>Get\<close>. For a root record
  passed by value (a type with no methods, on the empty table), the path \<open>P\<close>, \<open>X\<close> built by
  \<open>Next\<close> reads the field \<open>P\<close> into a holder, writes \<open>X\<close> there and returns no error; nothing
  is written back (\<open>setBackTo\<close> is still \<open>-1\<close>), and \<open>Get\<close> on the same root returns the old
  value. On the same root the path \<open>P\<close> alone returns \<open>ErrSetNotSupported\<close>, and with a
  pointer to the record as the root the \<open>Set\<close> on \<open>P\<close>, \<open>X\<close> writes the field and \<open>Get\<close> reads
  the value.
\<close>

theorem Path_Set_by_value_loses_write:
  "fst (Next noMethods Map.empty (NewPath outer) (KStr ''P''))
     = Some \<lparr>Path.root = outer, nodes = [fieldNode [''P''] [point] 0]\<rparr> \<and>
   fst (Next noMethods Map.empty \<lparr>Path.root = outer, nodes = [fieldNode [''P''] [point] 0]\<rparr> (KStr ''X''))
     = Some \<lparr>Path.root = outer,
              nodes = [fieldNode [''P''] [point] 0, fieldNode [''X'', ''Y''] [TInt, TInt] 0]\<rparr> \<and>
   Path_Set \<lparr>Path.root = outer, nodes = [fieldNode [''P''] [point] 0]\<rparr>
      (Val outer (VStruct [VStruct [VInt 0, VInt 0]])) (Val point (VStruct [VInt 7, VInt 0])) []
     = Some (Some ErrSetNotSupported, []) \<and>
   Path_Set \<lparr>Path.root = outer,
             nodes = [fieldNode [''P''] [point] 0, fieldNode [''X'', ''Y''] [TInt, TInt] 0]\<rparr>
      (Val outer (VStruct [VStruct [VInt 0, VInt 0]])) (Val TInt (VInt 7)) []
     = Some (None, [CVal (VStruct [VInt 7, VInt 0])]) \<and>
   Path_Get \<lparr>Path.root = outer,
             nodes = [fieldNode [''P''] [point] 0, fieldNode [''X'', ''Y''] [TInt, TInt] 0]\<rparr>
      (Val outer (VStruct [VStruct [VInt 0, VInt 0]])) [CVal (VStruct [VInt 7, VInt 0])]
     = Some (Val TInt (VInt 0), None) \<and>
   Path_Set \<lparr>Path.root = TPtr outer,
             nodes = [fieldNode [''P''] [point] 0, fieldNode [''X'', ''Y''] [TInt, TInt] 0]\<rparr>
      (ptr outer 0) (Val TInt (VInt 7)) [CVal (VStruct [VStruct [VInt 0, VInt 0]])]
     = Some (None, [CVal (VStruct [VStruct [VInt 7, VInt 0]])]) \<and>
   map_option (\<lambda>(v, err). (valof [CVal (VStruct [VStruct [VInt 7, VInt 0]])] v, err))
     (Path_Get \<lparr>Path.root = TPtr outer,
               nodes = [fieldNode [''P''] [point] 0, fieldNode [''X'', ''Y''] [TInt, TInt] 0]\<rparr>
        (ptr outer 0) [CVal (VStruct [VStruct [VInt 7, VInt 0]])])
     = Some (Some (VInt 7), None)"
  by code_simp

text \<open>
  Where \<open>Set\<close> is read back. For a root that is a pointer to a map of records, and for a
  root that is a pointer to a record with such a map in a field (nil or not), with the entry
  of the key absent or present: setting a field of the record under the key
  (\<open>m[k].Field = v\<close>) to a value of the field's type succeeds, a \<open>Get\<close> on the same path then
  returns exactly the value, and repeating the \<open>Set\<close> succeeds, changes no existing cell and
  leaves \<open>Get\<close> returning the value. The same holds for a root that is a pointer to a map
  nested any number of levels deep and the path of one key per level: the entries along the
  keys may be absent or nil maps from any level on, the maps that exist being objects of
  their own.
\<close>

lemma Set_then_Get_roundtrip:
  "(load h a [] = Some (VMap (Some m)) \<and> map_cell h m = Some al \<and> entry_ok al s ts \<and>
    j < length ts \<longrightarrow>
      roundtrip (mapRecordPath nm fs ts s j) (ptr (TMap TString (TStruct nm fs ts)) a)
        (Val (ts ! j) xv) h) \<and>
   (load h a [] = Some (VStruct rvs) \<and> f < length rts \<and> length rvs = length rts \<and>
    rts ! f = TMap TString (TStruct nm fs ts) \<and> field_map_ok h (rvs ! f) s ts \<and>
    j < length ts \<longrightarrow>
      roundtrip (recordMapRecordPath rn rfs rts f nm fs ts s j) (ptr (TStruct rn rfs rts) a)
        (Val (ts ! j) xv) h) \<and>
   (ks \<noteq> [] \<and> load h a [] = Some (VMap (Some m)) \<and> chain h m (butlast ks) [] \<longrightarrow>
      roundtrip (mapsPath V ks) (ptr (mapT (length ks) V) a) (Val V xv) h)"
  using map_record_roundtrip [of h a m al s ts j nm fs xv]
    record_map_record_roundtrip [of h a rvs f rts nm fs ts s j rn rfs xv]
    nested_maps_roundtrip [of ks h a m V xv]
  by blast

lemma Set_then_Get_roundtrip_examples:
  "fst (Next noMethods Map.empty (NewPath (TPtr (TMap TString point))) (KStr ''B''))
     = Some \<lparr>Path.root = TPtr (TMap TString point), nodes = [mapAt point ''B'']\<rparr> \<and>
   fst (Next noMethods Map.empty
          \<lparr>Path.root = TPtr (TMap TString point), nodes = [mapAt point ''B'']\<rparr> (KStr ''X''))
     = Some (mapRecordPath ''point'' [''X'', ''Y''] [TInt, TInt] ''B'' 0) \<and>
   roundtrip (mapRecordPath ''point'' [''X'', ''Y''] [TInt, TInt] ''B'' 0)
     (ptr (TMap TString point) 0) (Val TInt (VInt 109)) hm \<and>
   roundtrip (recordMapRecordPath ''persons'' [''ByName''] [TMap TString point] 0
                ''point'' [''X'', ''Y''] [TInt, TInt] ''John'' 1)
     (ptr persons 0) (Val TInt (VInt 5)) [CVal (VStruct [VMap None])] \<and>
   fst (Next noMethods Map.empty (mapsPath (TMap TString TInt) [''a'', ''b'']) (KStr ''c''))
     = Some (mapsPath TInt [''a'', ''b'', ''c'']) \<and>
   roundtrip (mapsPath TInt [''a'', ''b'', ''c''])
     (ptr (TMap TString (TMap TString (TMap TString TInt))) 0) (Val TInt (VInt 4)) hn"
proof -
  have n: "fst (Next noMethods Map.empty (NewPath (TPtr (TMap TString point))) (KStr ''B''))
     = Some \<lparr>Path.root = TPtr (TMap TString point), nodes = [mapAt point ''B'']\<rparr>"
    "fst (Next noMethods Map.empty
          \<lparr>Path.root = TPtr (TMap TString point), nodes = [mapAt point ''B'']\<rparr> (KStr ''X''))
     = Some (mapRecordPath ''point'' [''X'', ''Y''] [TInt, TInt] ''B'' 0)"
    "fst (Next noMethods Map.empty (mapsPath (TMap TString TInt) [''a'', ''b'']) (KStr ''c''))
     = Some (mapsPath TInt [''a'', ''b'', ''c''])"
    by code_simp+
  have a: "load hm 0 [] = Some (VMap (Some 1)) \<and>
      map_cell hm 1 = Some [(VStr ''A'', VStruct [VInt 56, VInt 0])] \<and>
      entry_ok [(VStr ''A'', VStruct [VInt 56, VInt 0])] ''B'' [TInt, TInt] \<and>
      (0::nat) < length [TInt, TInt]"
    by code_simp
  have b: "load [CVal (VStruct [VMap None])] 0 [] = Some (VStruct [VMap None]) \<and>
      (0::nat) < length [TMap TString point] \<and> length [VMap None] = length [TMap TString point] \<and>
      [TMap TString point] ! 0 = TMap TString (TStruct ''point'' [''X'', ''Y''] [TInt, TInt]) \<and>
      field_map_ok [CVal (VStruct [VMap None])] ([VMap None] ! 0) ''John'' [TInt, TInt] \<and>
      (1::nat) < length [TInt, TInt]"
    by code_simp
  have c: "[''a'', ''b'', ''c''] \<noteq> [] \<and> load hn 0 [] = Some (VMap (Some 1)) \<and>
      chain hn 1 (butlast [''a'', ''b'', ''c'']) []"
    by code_simp
  have t: "[TInt, TInt] ! 0 = TInt" "[TInt, TInt] ! 1 = TInt"
    "TStruct ''point'' [''X'', ''Y''] [TInt, TInt] = point"
    "TStruct ''persons'' [''ByName''] [TMap TString point] = persons"
    "mapT (length [''a'', ''b'', ''c'']) TInt = TMap TString (TMap TString (TMap TString TInt))"
    by (simp_all add: point_def persons_def)
  from Set_then_Get_roundtrip [where h = hm and a = 0 and m = 1
      and al = "[(VStr ''A'', VStruct [VInt 56, VInt 0])]" and s = "''B''" and ts = "[TInt, TInt]"
      and j = 0 and nm = "''point''" and fs = "[''X'', ''Y'']" and xv = "VInt 109"
      and f = 0 and rts = "[]" and rvs = "[]" and ks = "[]"] a
  have 1: "roundtrip (mapRecordPath ''point'' [''X'', ''Y''] [TInt, TInt] ''B'' 0)
     (ptr (TMap TString point) 0) (Val TInt (VInt 109)) hm"
    unfolding t by blast
  from Set_then_Get_roundtrip [where h = "[CVal (VStruct [VMap None])]" and a = 0
      and rvs = "[VMap None]" and f = 0 and rts = "[TMap TString point]" and s = "''John''"
      and ts = "[TInt, TInt]" and j = 1 and nm = "''point''" and fs = "[''X'', ''Y'']"
      and rn = "''persons''" and rfs = "[''ByName'']" and xv = "VInt 5" and ks = "[]"] b
  have 2: "roundtrip (recordMapRecordPath ''persons'' [''ByName''] [TMap TString point] 0
                ''point'' [''X'', ''Y''] [TInt, TInt] ''John'' 1)
     (ptr persons 0) (Val TInt (VInt 5)) [CVal (VStruct [VMap None])]"
    unfolding t by blast
  from Set_then_Get_roundtrip [where h = hn and a = 0 and m = 1 and ks = "[''a'', ''b'', ''c'']"
      and V = TInt and xv = "VInt 4" and ts = "[]" and rts = "[]" and rvs = "[]"] c
  have 3: "roundtrip (mapsPath TInt [''a'', ''b'', ''c''])
     (ptr (TMap TString (TMap TString (TMap TString TInt))) 0) (Val TInt (VInt 4)) hn"
    unfolding t by blast
  from n 1 2 3 show ?thesis by blast
qed

section \<open>Extending a path\<close>

text \<open>
  \<open>Next\<close> on path values: \<open>nil\<close>, or the nodes of the path followed by the node that the
  key resolves to among the nodes of the type at the end of the path.
\<close>

lemma Next_result:
  "fst (Next ms tn p k) = None \<or>
   (\<exists>n. Nodes_ForKey (fst (NextNodes ms tn p)) k = Some n \<and>
        fst (Next ms tn p k) = Some \<lparr>Path.root = Path.root p, nodes = nodes p @ [n]\<rparr>)"
  by (simp add: Next_def NewPath_def split: option.splits prod.splits)

lemma append_nodes_fresh:
  assumes "append_nodes grow st s xs = (s', st')" "length st0 \<le> arr s" "arr s < length st"
    "len s \<le> length (st ! arr s)"
  shows "take (length st0) st' = take (length st0) st \<and> length st0 \<le> arr s' \<and> arr s' < length st' \<and>
         read_nodes st' s' = read_nodes st s @ xs \<and> len s' \<le> length (st' ! arr s')"
  using assms
  by (auto simp: append_nodes_def read_nodes_def Let_def nth_append split: if_splits)

text \<open>
  C8. \<open>p.Next(k)\<close> leaves every array of the store as it was, so \<open>p\<close> and every other
  existing path read the same before and after; it returns \<open>nil\<close>, with the store unchanged,
  or a path with the root type of \<open>p\<close>, held in a new array, whose nodes are the nodes of
  \<open>p\<close> followed by the node bound to the key. This holds for all methods of the types and
  every table \<open>typeNodes\<close>, and the table is left as \<open>Next\<close> on path values leaves it.
\<close>

theorem Next_store_frame:
  assumes "arr (snodes p) < length st"
  shows "(case Next_store ms tn grow st p k of ((r, st'), tn') \<Rightarrow>
           take (length st) st' = st \<and>
           path_of st' p = path_of st p \<and>
           (map_option (path_of st') r, tn') = Next ms tn (path_of st p) k \<and>
           (case r of None \<Rightarrow> st' = st | Some p' \<Rightarrow> length st \<le> arr (snodes p')))"
proof -
  obtain N tn1 where N: "NextNodes ms tn (path_of st p) = (N, tn1)" by fastforce
  show ?thesis
  proof (cases "Nodes_ForKey N k")
    case None
    then show ?thesis using N by (simp add: Next_store_def Next_def)
  next
    case (Some nd)
    let ?st0 = "st @ [[]]"
    let ?s0 = "\<lparr>arr = length st, len = 0, cap = 0\<rparr>"
    have rd: "read_nodes ?st0 (snodes p) = read_nodes st (snodes p)"
      using assms by (simp add: read_nodes_def nth_append)
    obtain s1 st1 where a1: "append_nodes grow ?st0 ?s0 (read_nodes st (snodes p)) = (s1, st1)"
      by fastforce
    obtain s2 st2 where a2: "append_nodes grow st1 s1 [Some nd] = (s2, st2)" by fastforce
    from append_nodes_fresh [OF a1, of st]
    have f1: "take (length st) st1 = st" "length st \<le> arr s1" "arr s1 < length st1"
      "read_nodes st1 s1 = read_nodes st (snodes p)" "len s1 \<le> length (st1 ! arr s1)"
      by (simp_all add: read_nodes_def)
    from append_nodes_fresh [OF a2 f1(2,3,5)]
    have f2: "take (length st) st2 = st" "length st \<le> arr s2"
      "read_nodes st2 s2 = read_nodes st (snodes p) @ [Some nd]"
      using f1 by simp_all
    have r: "Next_store ms tn grow st p k = ((Some \<lparr>sroot = sroot p, snodes = s2\<rparr>, st2), tn1)"
      using Some N a1 a2 rd by (simp add: Next_store_def make_nodes_def)
    have same: "st2 ! arr (snodes p) = st ! arr (snodes p)"
      using f2(1) assms by (metis nth_take)
    have p: "path_of st2 p = path_of st p" by (simp add: path_of_def read_nodes_def same)
    have "path_of st2 \<lparr>sroot = sroot p, snodes = s2\<rparr>
        = \<lparr>Path.root = sroot p, nodes = nodes (path_of st p) @ [nd]\<rparr>"
      by (simp add: path_of_def f2(3))
    moreover have "Next ms tn (path_of st p) k
        = (Some \<lparr>Path.root = sroot p, nodes = nodes (path_of st p) @ [nd]\<rparr>, tn1)"
      using Some N by (simp add: Next_def NewPath_def path_of_def)
    ultimately show ?thesis using r f2 p by simp
  qed
qed

theorem Next_store_frame_witness:
  "arr (snodes sp1) < length st1 \<and>
   take (length st1) (snd (fst (Next_store noMethods Map.empty (\<lambda>c n. 2 * n) st1 sp1 (KStr ''B'')))) = st1 \<and>
   path_of (snd (fst (Next_store noMethods Map.empty (\<lambda>c n. 2 * n) st1 sp1 (KStr ''B'')))) sp1
     = path_of st1 sp1 \<and>
   map_option (path_of (snd (fst (Next_store noMethods Map.empty (\<lambda>c n. 2 * n) st1 sp1 (KStr ''B'')))))
     (fst (fst (Next_store noMethods Map.empty (\<lambda>c n. 2 * n) st1 sp1 (KStr ''B''))))
     = Some \<lparr>Path.root = TMap TString (TMap TString TInt),
              nodes = [mapAt (TMap TString TInt) ''A'', mapAt TInt ''B'']\<rparr>"
proof -
  have h: "arr (snodes sp1) < length st1" by code_simp
  have n: "fst (Next noMethods Map.empty (path_of st1 sp1) (KStr ''B''))
      = Some \<lparr>Path.root = TMap TString (TMap TString TInt),
               nodes = [mapAt (TMap TString TInt) ''A'', mapAt TInt ''B'']\<rparr>"
    by code_simp
  obtain r st' tn' where e:
    "Next_store noMethods Map.empty (\<lambda>c n. 2 * n) st1 sp1 (KStr ''B'') = ((r, st'), tn')"
    by (metis surj_pair)
  from Next_store_frame [OF h, where ms = noMethods and tn = Map.empty and grow = "\<lambda>c n. 2 * n"
      and k = "KStr ''B''"] e
  have "take (length st1) st' = st1" "path_of st' sp1 = path_of st1 sp1"
    "(map_option (path_of st') r, tn') = Next noMethods Map.empty (path_of st1 sp1) (KStr ''B'')"
    by simp_all
  with h n e show ?thesis by (metis fst_conv snd_conv)
qed

end
